theory Spec2Isabelle
  imports Main "HOL-Library.Monad_Syntax"
begin

unbundle bit_operations_syntax

section \<open>Scoped resources: Window, Renderer, Texture, Surface, Mixer and the lock handles\<close>

text \<open>
  A native handle (\<^verbatim>\<open>SDL_Window*\<close>, \<^verbatim>\<open>SDL_Renderer*\<close>, ...) is a pointer: either
  \<^verbatim>\<open>nullptr\<close> or the address of a native structure.
\<close>

datatype ptr = nullptr | Addr nat

text \<open>
  Modelled from the spec: \<^verbatim>\<open>SDL2pp::Exception\<close> (Exception.hh is not among the sources).
  Every throw site of the sources constructs it from the name of the native function
  that failed; the spec says the error carries that operation name, so the model keeps
  exactly the constructor argument.
\<close>

datatype exn = Exception string

text \<open>
  The wrapper objects, one constructor per class, holding the class's data members:
  \<^verbatim>\<open>window_\<close>, \<^verbatim>\<open>renderer_\<close>, \<^verbatim>\<open>texture_\<close>, \<^verbatim>\<open>surface_\<close> (native pointers),
  \<^verbatim>\<open>open_\<close> of the Mixer, \<^verbatim>\<open>texture_\<close>, \<^verbatim>\<open>pixels_\<close>, \<^verbatim>\<open>pitch_\<close> of
  \<^verbatim>\<open>Texture::LockHandle\<close> and \<^verbatim>\<open>surface_\<close> of \<^verbatim>\<open>Surface::LockHandle\<close>. A lock
  handle points to its parent wrapper object (a \<^verbatim>\<open>Texture*\<close> or \<^verbatim>\<open>Surface*\<close>).
  The Mixer's \<^verbatim>\<open>current_music_hook_\<close> takes no part in releasing and is left out.
\<close>

datatype object =
    Window ptr
  | Renderer ptr
  | Texture ptr
  | Surface ptr
  | Mixer bool
  | Texture_LockHandle ptr ptr int
  | Surface_LockHandle ptr

text \<open>The native calls the lifecycle code issues, recorded in the order they are made.\<close>

datatype native =
    SDL_DestroyWindow ptr
  | SDL_DestroyRenderer ptr
  | SDL_DestroyTexture ptr
  | SDL_FreeSurface ptr
  | Mix_CloseAudio
  | SDL_LockTexture ptr
  | SDL_UnlockTexture ptr
  | SDL_LockSurface ptr
  | SDL_UnlockSurface ptr

text \<open>
  What a lock handle reads through its parent pointer: \<^verbatim>\<open>Get\<close> is the native pointer
  \<^verbatim>\<open>texture_->Get()\<close> / \<^verbatim>\<open>surface_->Get()\<close> of the parent object at an address (the
  parent outlives the lock and keeps its handle meanwhile: the caller's obligation),
  and \<^verbatim>\<open>SDL_MUSTLOCK\<close> is SDL's macro on the native surface, taken as a parameter.
\<close>

record natives =
  Get :: "nat \<Rightarrow> ptr"
  SDL_MUSTLOCK :: "ptr \<Rightarrow> bool"

subsection \<open>Constructors that acquire\<close>

text \<open>
  Each constructor takes the value its native acquire call returned.
  \<^verbatim>\<open>if ((window_ = SDL_CreateWindow(...)) == nullptr) throw Exception("SDL_CreateWindow");\<close>
\<close>

definition Window_ctor :: "ptr \<Rightarrow> exn + object" where
  "Window_ctor r = (if r = nullptr then Inl (Exception ''SDL_CreateWindow'') else Inr (Window r))"

definition Renderer_ctor :: "ptr \<Rightarrow> exn + object" where
  "Renderer_ctor r = (if r = nullptr then Inl (Exception ''SDL_CreateRenderer'') else Inr (Renderer r))"

definition Surface_ctor_RGB :: "ptr \<Rightarrow> exn + object" where
  "Surface_ctor_RGB r = (if r = nullptr then Inl (Exception ''SDL_CreateRGBSurface'') else Inr (Surface r))"

definition Surface_ctor_RGBFrom :: "ptr \<Rightarrow> exn + object" where
  "Surface_ctor_RGBFrom r =
     (if r = nullptr then Inl (Exception ''SDL_CreateRGBSurfaceFrom'') else Inr (Surface r))"

definition Surface_ctor_RWops :: "ptr \<Rightarrow> exn + object" where
  "Surface_ctor_RWops r = (if r = nullptr then Inl (Exception ''IMG_Load_RW'') else Inr (Surface r))"

definition Surface_ctor_file :: "ptr \<Rightarrow> exn + object" where
  "Surface_ctor_file r = (if r = nullptr then Inl (Exception ''IMG_Load'') else Inr (Surface r))"

text \<open>
  \<^verbatim>\<open>Mixer(...) : open_(true) { if (Mix_OpenAudio(...) != 0) throw Exception("Mix_OpenAudio"); }\<close>
  The argument is the return code of \<^verbatim>\<open>Mix_OpenAudio\<close>. A constructor that throws
  leaves no object behind, so no destructor runs for it.
\<close>

definition Mixer_ctor :: "int \<Rightarrow> exn + object" where
  "Mixer_ctor rc = (if rc \<noteq> 0 then Inl (Exception ''Mix_OpenAudio'') else Inr (Mixer True))"

text \<open>
  Class Texture has no acquiring constructor in these sources: textures are acquired by
  the factory methods \<^verbatim>\<open>Renderer::createTexture\<close>, which check the native result and
  then wrap it.
\<close>

definition createTexture :: "ptr \<Rightarrow> exn + object" where
  "createTexture r = (if r = nullptr then Inl (Exception ''SDL_CreateTexture'') else Inr (Texture r))"

definition createTexture_RWops :: "ptr \<Rightarrow> exn + object" where
  "createTexture_RWops r =
     (if r = nullptr then Inl (Exception ''IMG_LoadTexture_RW'') else Inr (Texture r))"

definition createTexture_file :: "ptr \<Rightarrow> exn + object" where
  "createTexture_file r = (if r = nullptr then Inl (Exception ''IMG_LoadTexture'') else Inr (Texture r))"

definition createTexture_Surface :: "ptr \<Rightarrow> exn + object" where
  "createTexture_Surface r =
     (if r = nullptr then Inl (Exception ''SDL_CreateTextureFromSurface'') else Inr (Texture r))"

text \<open>
  The lock handles. \<^verbatim>\<open>LockHandle(Texture* texture, rect)\<close> calls
  \<^verbatim>\<open>SDL_LockTexture(texture_->Get(), ...)\<close>, which returns a code and writes
  \<^verbatim>\<open>pixels_\<close> and \<^verbatim>\<open>pitch_\<close>; \<^verbatim>\<open>LockHandle(Surface* surface)\<close> locks only under
  \<^verbatim>\<open>SDL_MUSTLOCK\<close>. The result pairs the native calls made with the outcome.
\<close>

definition Texture_LockHandle_ctor ::
    "natives \<Rightarrow> nat \<Rightarrow> int \<Rightarrow> ptr \<Rightarrow> int \<Rightarrow> native list \<times> (exn + object)" where
  "Texture_LockHandle_ctor E texture rc pixels pitch =
     ([SDL_LockTexture (Get E texture)],
      if rc \<noteq> 0 then Inl (Exception ''SDL_LockTexture'')
      else Inr (Texture_LockHandle (Addr texture) pixels pitch))"

definition Surface_LockHandle_ctor :: "natives \<Rightarrow> nat \<Rightarrow> int \<Rightarrow> native list \<times> (exn + object)" where
  "Surface_LockHandle_ctor E surface rc =
     (if SDL_MUSTLOCK E (Get E surface) then
        ([SDL_LockSurface (Get E surface)],
         if rc \<noteq> 0 then Inl (Exception ''SDL_LockSurface'')
         else Inr (Surface_LockHandle (Addr surface)))
      else ([], Inr (Surface_LockHandle (Addr surface))))"

text \<open>The no-op lock handles of the default constructors.\<close>

definition Texture_LockHandle_default :: object where
  "Texture_LockHandle_default = Texture_LockHandle nullptr nullptr 0"

definition Surface_LockHandle_default :: object where
  "Surface_LockHandle_default = Surface_LockHandle nullptr"

subsection \<open>Destructors and moves\<close>

text \<open>
  The native calls a destructor makes, e.g.
  \<^verbatim>\<open>if (renderer_ != nullptr) SDL_DestroyRenderer(renderer_);\<close> and, for the surface lock,
  \<^verbatim>\<open>if (surface_ != nullptr) { if (SDL_MUSTLOCK(surface_->Get())) SDL_UnlockSurface(surface_->Get()); }\<close>
  Move assignment releases what its target holds with the same statements.
\<close>

fun dtor :: "natives \<Rightarrow> object \<Rightarrow> native list" where
  "dtor E (Window p) = (if p \<noteq> nullptr then [SDL_DestroyWindow p] else [])"
| "dtor E (Renderer p) = (if p \<noteq> nullptr then [SDL_DestroyRenderer p] else [])"
| "dtor E (Texture p) = (if p \<noteq> nullptr then [SDL_DestroyTexture p] else [])"
| "dtor E (Surface p) = (if p \<noteq> nullptr then [SDL_FreeSurface p] else [])"
| "dtor E (Mixer b) = (if b then [Mix_CloseAudio] else [])"
| "dtor E (Texture_LockHandle t px pitch) =
     (case t of nullptr \<Rightarrow> [] | Addr a \<Rightarrow> [SDL_UnlockTexture (Get E a)])"
| "dtor E (Surface_LockHandle s) =
     (case s of nullptr \<Rightarrow> []
      | Addr a \<Rightarrow> if SDL_MUSTLOCK E (Get E a) then [SDL_UnlockSurface (Get E a)] else [])"

text \<open>
  What a move leaves in its source: \<^verbatim>\<open>other.renderer_ = nullptr;\<close>,
  \<^verbatim>\<open>other.open_ = false;\<close>, and for the texture lock also
  \<^verbatim>\<open>other.pixels_ = nullptr; other.pitch_ = 0;\<close>
\<close>

fun moved_from :: "object \<Rightarrow> object" where
  "moved_from (Window p) = Window nullptr"
| "moved_from (Renderer p) = Renderer nullptr"
| "moved_from (Texture p) = Texture nullptr"
| "moved_from (Surface p) = Surface nullptr"
| "moved_from (Mixer b) = Mixer False"
| "moved_from (Texture_LockHandle t px pitch) = Texture_LockHandle nullptr nullptr 0"
| "moved_from (Surface_LockHandle s) = Surface_LockHandle nullptr"

text \<open>Moves are between objects of one class (the compiler sees to it).\<close>

fun same_class :: "object \<Rightarrow> object \<Rightarrow> bool" where
  "same_class (Window p) (Window q) = True"
| "same_class (Renderer p) (Renderer q) = True"
| "same_class (Texture p) (Texture q) = True"
| "same_class (Surface p) (Surface q) = True"
| "same_class (Mixer a) (Mixer b) = True"
| "same_class (Texture_LockHandle t px pitch) (Texture_LockHandle t' px' pitch') = True"
| "same_class (Surface_LockHandle s) (Surface_LockHandle s') = True"
| "same_class _ _ = False"

text \<open>
  The program state: the live wrapper objects by their addresses (\<^verbatim>\<open>this\<close>,
  \<^verbatim>\<open>&other\<close>) and the native calls made so far.
\<close>

record world =
  objs :: "nat \<rightharpoonup> object"
  trace :: "native list"

text \<open>
  Each operation is \<open>None\<close> where C++ gives it no meaning: a dead object is used, or a
  new object is placed where one lives.
\<close>

definition destroy :: "natives \<Rightarrow> nat \<Rightarrow> world \<Rightarrow> world option" where
  "destroy E this s =
     (case objs s this of
        None \<Rightarrow> None
      | Some w \<Rightarrow> Some \<lparr>objs = (objs s)(this := None), trace = trace s @ dtor E w\<rparr>)"

text \<open>\<^verbatim>\<open>Renderer(Renderer&& other) noexcept : renderer_(other.renderer_) { other.renderer_ = nullptr; }\<close>\<close>

definition move_construct :: "nat \<Rightarrow> nat \<Rightarrow> world \<Rightarrow> world option" where
  "move_construct this other s =
     (case objs s this of
        Some w \<Rightarrow> None
      | None \<Rightarrow>
          (case objs s other of
             None \<Rightarrow> None
           | Some w \<Rightarrow> Some \<lparr>objs = (objs s)(other \<mapsto> moved_from w, this \<mapsto> w), trace = trace s\<rparr>))"

text \<open>
  \<^verbatim>\<open>
  Renderer& operator=(Renderer&& other) noexcept {
      if (&other == this) return *this;
      if (renderer_ != nullptr) SDL_DestroyRenderer(renderer_);
      renderer_ = other.renderer_;
      other.renderer_ = nullptr;
      return *this;
  }
  \<close>
\<close>

definition move_assign :: "natives \<Rightarrow> nat \<Rightarrow> nat \<Rightarrow> world \<Rightarrow> world option" where
  "move_assign E this other s =
     (case objs s this of
        None \<Rightarrow> None
      | Some t \<Rightarrow>
          (case objs s other of
             None \<Rightarrow> None
           | Some w \<Rightarrow>
               if \<not> same_class t w then None
               else if other = this then Some s
               else Some \<lparr>objs = (objs s)(other \<mapsto> moved_from w, this \<mapsto> w),
                          trace = trace s @ dtor E t\<rparr>))"

text \<open>
  Placing the result of a constructor at an address: a constructor that threw leaves the
  state as it was.
\<close>

definition construct :: "nat \<Rightarrow> exn + object \<Rightarrow> world \<Rightarrow> exn option \<times> world" where
  "construct this r s =
     (case r of
        Inl e \<Rightarrow> (Some e, s)
      | Inr w \<Rightarrow> (None, s\<lparr>objs := (objs s)(this \<mapsto> w)\<rparr>))"

text \<open>Sequences of moves and ends of lifetimes.\<close>

datatype stmt = MoveConstruct nat nat | MoveAssign nat nat | Destroy nat

fun step :: "natives \<Rightarrow> stmt \<Rightarrow> world \<Rightarrow> world option" where
  "step E (MoveConstruct this other) s = move_construct this other s"
| "step E (MoveAssign this other) s = move_assign E this other s"
| "step E (Destroy this) s = destroy E this s"

fun run :: "natives \<Rightarrow> stmt list \<Rightarrow> world \<Rightarrow> world option" where
  "run E [] s = Some s"
| "run E (c # cs) s = (case step E c s of None \<Rightarrow> None | Some s' \<Rightarrow> run E cs s')"



text \<open>
  One handle among the live objects: either one object holds \<open>w\<close>, every other live
  object is moved-from and nothing was released, or every live object is moved-from and
  the calls made are those of releasing \<open>w\<close> once.
\<close>

definition sole :: "natives \<Rightarrow> object \<Rightarrow> world \<Rightarrow> bool" where
  "sole E w s \<longleftrightarrow>
     (\<exists>a. objs s a = Some w \<and> trace s = [] \<and>
          (\<forall>b. b \<noteq> a \<longrightarrow> objs s b = None \<or> objs s b = Some (moved_from w)))
     \<or> (trace s = dtor E w \<and> (\<forall>b. objs s b = None \<or> objs s b = Some (moved_from w)))"

definition held :: "object \<Rightarrow> world \<Rightarrow> nat \<Rightarrow> bool" where
  "held w s a \<longleftrightarrow>
     objs s a = Some w \<and> trace s = [] \<and>
     (\<forall>b. b \<noteq> a \<longrightarrow> objs s b = None \<or> objs s b = Some (moved_from w))"

definition gone :: "natives \<Rightarrow> object \<Rightarrow> world \<Rightarrow> bool" where
  "gone E w s \<longleftrightarrow>
     trace s = dtor E w \<and> (\<forall>b. objs s b = None \<or> objs s b = Some (moved_from w))"

text \<open>Concrete inputs for the examples: every parent's native pointer is its own address.\<close>

definition env_mustlock :: natives where
  "env_mustlock = \<lparr>Get = Addr, SDL_MUSTLOCK = (\<lambda>p. True)\<rparr>"

definition env_nolock :: natives where
  "env_nolock = \<lparr>Get = Addr, SDL_MUSTLOCK = (\<lambda>p. False)\<rparr>"

definition one_object :: "nat \<Rightarrow> object \<Rightarrow> world" where
  "one_object a w = \<lparr>objs = [a \<mapsto> w], trace = []\<rparr>"

definition no_objects :: "native list \<Rightarrow> world" where
  "no_objects calls = \<lparr>objs = Map.empty, trace = calls\<rparr>"

section \<open>Renderer::FillCopy\<close>

subsection \<open>The C++ \<^verbatim>\<open>int\<close>\<close>

text \<open>
  Coordinates, extents and the flip flags are C++ \<^verbatim>\<open>int\<close>s: 32-bit two's complement
  values. Signed overflow and division by zero are undefined behaviour, so each
  arithmetic operation of the model yields \<open>None\<close> when its mathematical result is not
  representable. Division truncates towards zero.
\<close>

definition INT_MIN :: int where
  "INT_MIN = - 2147483648"

definition INT_MAX :: int where
  "INT_MAX = 2147483647"

definition chk :: "int \<Rightarrow> int option" where
  "chk v = (if INT_MIN \<le> v \<and> v \<le> INT_MAX then Some v else None)"

definition c_add :: "int \<Rightarrow> int \<Rightarrow> int option" where
  "c_add a b = chk (a + b)"

definition c_sub :: "int \<Rightarrow> int \<Rightarrow> int option" where
  "c_sub a b = chk (a - b)"

definition c_neg :: "int \<Rightarrow> int option" where
  "c_neg a = chk (- a)"

definition c_mul :: "int \<Rightarrow> int \<Rightarrow> int option" where
  "c_mul a b = chk (a * b)"

definition c_div :: "int \<Rightarrow> int \<Rightarrow> int option" where
  "c_div a b = (if b = 0 then None else chk (sgn a * sgn b * (\<bar>a\<bar> div \<bar>b\<bar>)))"

subsection \<open>Rectangles, points and the native copy calls\<close>

text \<open>
  \<^verbatim>\<open>Rect\<close> has the fields \<^verbatim>\<open>x, y, w, h\<close> and \<^verbatim>\<open>Point\<close> the fields \<^verbatim>\<open>x, y\<close>; the
  selectors carry a prefix to keep those letters free for variables.
\<close>

record Rect =
  rx :: int
  ry :: int
  rw :: int
  rh :: int

record Point =
  px :: int
  py :: int

text \<open>
  SDL's enumerators of \<^verbatim>\<open>SDL_RendererFlip\<close> (SDL_render.h, outside the repository).
\<close>

definition SDL_FLIP_HORIZONTAL :: int where
  "SDL_FLIP_HORIZONTAL = 1"

definition SDL_FLIP_VERTICAL :: int where
  "SDL_FLIP_VERTICAL = 2"

text \<open>
  The native calls of the two \<^verbatim>\<open>Copy\<close> overloads FillCopy uses, with their source and
  destination rectangles; \<^verbatim>\<open>SDL_RenderCopyEx\<close> also gets the flip flags (its angle
  is \<^verbatim>\<open>0.0\<close> and its centre null at this call site).
\<close>

datatype render_call =
    SDL_RenderCopy Rect Rect
  | SDL_RenderCopyEx Rect Rect int

fun call_src :: "render_call \<Rightarrow> Rect" where
  "call_src (SDL_RenderCopy s d) = s"
| "call_src (SDL_RenderCopyEx s d f) = s"

fun call_dst :: "render_call \<Rightarrow> Rect" where
  "call_dst (SDL_RenderCopy s d) = d"
| "call_dst (SDL_RenderCopyEx s d f) = d"

text \<open>
  What the renderer and the texture answer: the texture's size from
  \<^verbatim>\<open>SDL_QueryTexture\<close> and the output size from \<^verbatim>\<open>SDL_GetRendererOutputSize\<close> (\<open>None\<close>
  when the query fails), and the return code of a native copy call, which may depend on
  the calls issued before it.
\<close>

record renv =
  query_texture :: "(int \<times> int) option"
  output_size :: "(int \<times> int) option"
  native_rc :: "render_call list \<Rightarrow> render_call \<Rightarrow> int"

text \<open>
  How a call ends: it returns, it throws, or it runs into undefined behaviour. The
  state is the list of native copy calls issued so far, a failed one included.
\<close>

datatype outcome = Returned | Threw exn | Undefined

text \<open>
  \<^verbatim>\<open>if (SDL_RenderCopy(renderer_, texture.Get(), srcrect, dstrect) != 0) throw Exception("SDL_RenderCopy");\<close>
\<close>

definition Copy :: "renv \<Rightarrow> Rect \<Rightarrow> Rect \<Rightarrow> render_call list \<Rightarrow> outcome \<times> render_call list" where
  "Copy R srcrect dstrect log =
     (if native_rc R log (SDL_RenderCopy srcrect dstrect) \<noteq> 0
      then (Threw (Exception ''SDL_RenderCopy''), log @ [SDL_RenderCopy srcrect dstrect])
      else (Returned, log @ [SDL_RenderCopy srcrect dstrect]))"

text \<open>
  \<^verbatim>\<open>if (SDL_RenderCopyEx(renderer_, texture.Get(), srcrect, dstrect, angle, center, flip) != 0) throw Exception("SDL_RenderCopyEx");\<close>
\<close>

definition CopyEx ::
    "renv \<Rightarrow> Rect \<Rightarrow> Rect \<Rightarrow> int \<Rightarrow> render_call list \<Rightarrow> outcome \<times> render_call list" where
  "CopyEx R srcrect dstrect flip log =
     (if native_rc R log (SDL_RenderCopyEx srcrect dstrect flip) \<noteq> 0
      then (Threw (Exception ''SDL_RenderCopyEx''), log @ [SDL_RenderCopyEx srcrect dstrect flip])
      else (Returned, log @ [SDL_RenderCopyEx srcrect dstrect flip]))"

subsection \<open>The steps of FillCopy\<close>

text \<open>
  Resolving the rectangles.
  \<^verbatim>\<open>Rect src = srcrect ? *srcrect : Rect(0, 0, texture.GetWidth(), texture.GetHeight());\<close>
  \<^verbatim>\<open>Rect dst = dstrect ? *dstrect : Rect(0, 0, GetOutputWidth(), GetOutputHeight());\<close>
  The getters throw when their native query fails.
\<close>

definition resolve_src :: "renv \<Rightarrow> Rect option \<Rightarrow> exn + Rect" where
  "resolve_src R srcrect =
     (case srcrect of
        Some r \<Rightarrow> Inr r
      | None \<Rightarrow>
          (case query_texture R of
             None \<Rightarrow> Inl (Exception ''SDL_QueryTexture'')
           | Some (tw, th) \<Rightarrow> Inr \<lparr>rx = 0, ry = 0, rw = tw, rh = th\<rparr>))"

definition resolve_dst :: "renv \<Rightarrow> Rect option \<Rightarrow> exn + Rect" where
  "resolve_dst R dstrect =
     (case dstrect of
        Some r \<Rightarrow> Inr r
      | None \<Rightarrow>
          (case output_size R of
             None \<Rightarrow> Inl (Exception ''SDL_GetRendererOutputSize'')
           | Some (ow, oh) \<Rightarrow> Inr \<lparr>rx = 0, ry = 0, rw = ow, rh = oh\<rparr>))"

text \<open>
  Ensuring the tile is leftmost (and, with the same statements on \<^verbatim>\<open>y\<close> and
  \<^verbatim>\<open>h\<close>, topmost):
  \<^verbatim>\<open>
  if (start_tile.x + start_tile.w <= 0)
      start_tile.x += (-start_tile.x) / start_tile.w * start_tile.w;
  if (start_tile.x > 0)
      start_tile.x -= (start_tile.x + start_tile.w - 1) / start_tile.w * start_tile.w;
  \<close>
\<close>

definition ensure_leftmost :: "int \<Rightarrow> int \<Rightarrow> int option" where
  "ensure_leftmost x0 w = do {
     s \<leftarrow> c_add x0 w;
     x1 \<leftarrow> (if s \<le> 0 then do {
              n \<leftarrow> c_neg x0;
              q \<leftarrow> c_div n w;
              m \<leftarrow> c_mul q w;
              c_add x0 m
            } else Some x0);
     if x1 > 0 then do {
       a \<leftarrow> c_add x1 w;
       b \<leftarrow> c_sub a 1;
       q \<leftarrow> c_div b w;
       m \<leftarrow> c_mul q w;
       c_sub x1 m
     } else Some x1
   }"

text \<open>
  \<^verbatim>\<open>Rect start_tile(offset.x, offset.y, src.w, src.h);\<close> followed by the two
  normalisations.
\<close>

definition start_tile :: "Rect \<Rightarrow> Point \<Rightarrow> Rect option" where
  "start_tile src offset = do {
     sx \<leftarrow> ensure_leftmost (px offset) (rw src);
     sy \<leftarrow> ensure_leftmost (py offset) (rh src);
     Some \<lparr>rx = sx, ry = sy, rw = rw src, rh = rh src\<rparr>
   }"

text \<open>
  Clamping one tile with the destination rectangle (the body of the inner loop up to
  the overflow clamps): \<^verbatim>\<open>tile_src\<close> and \<^verbatim>\<open>tile_dst\<close> for the tile at \<open>(x, y)\<close>.
  \<^verbatim>\<open>
  Rect tile_src = src;
  Rect tile_dst(x, y, start_tile.w, start_tile.h);
  int xunderflow = -x;
  if (xunderflow > 0) {
      tile_src.w -= xunderflow; tile_src.x += xunderflow;
      tile_dst.w -= xunderflow; tile_dst.x += xunderflow;
  }
  int yunderflow = -y;
  if (yunderflow > 0) { ... }
  int xoverflow = tile_dst.x + tile_dst.w - dst.w;
  if (xoverflow > 0) { tile_src.w -= xoverflow; tile_dst.w -= xoverflow; }
  int yoverflow = tile_dst.y + tile_dst.h - dst.h;
  if (yoverflow > 0) { tile_src.h -= yoverflow; tile_dst.h -= yoverflow; }
  \<close>
\<close>

definition clamp_tile :: "Rect \<Rightarrow> Rect \<Rightarrow> int \<Rightarrow> int \<Rightarrow> (Rect \<times> Rect) option" where
  "clamp_tile src dst x y = do {
     let tile_src = src;
     let tile_dst = \<lparr>rx = x, ry = y, rw = rw src, rh = rh src\<rparr>;
     xunderflow \<leftarrow> c_neg x;
     (tile_src, tile_dst) \<leftarrow>
       (if xunderflow > 0 then do {
          sw \<leftarrow> c_sub (rw tile_src) xunderflow;
          sx \<leftarrow> c_add (rx tile_src) xunderflow;
          dw \<leftarrow> c_sub (rw tile_dst) xunderflow;
          dx \<leftarrow> c_add (rx tile_dst) xunderflow;
          Some (tile_src\<lparr>rw := sw, rx := sx\<rparr>, tile_dst\<lparr>rw := dw, rx := dx\<rparr>)
        } else Some (tile_src, tile_dst));
     yunderflow \<leftarrow> c_neg y;
     (tile_src, tile_dst) \<leftarrow>
       (if yunderflow > 0 then do {
          sh \<leftarrow> c_sub (rh tile_src) yunderflow;
          sy \<leftarrow> c_add (ry tile_src) yunderflow;
          dh \<leftarrow> c_sub (rh tile_dst) yunderflow;
          dy \<leftarrow> c_add (ry tile_dst) yunderflow;
          Some (tile_src\<lparr>rh := sh, ry := sy\<rparr>, tile_dst\<lparr>rh := dh, ry := dy\<rparr>)
        } else Some (tile_src, tile_dst));
     xe \<leftarrow> c_add (rx tile_dst) (rw tile_dst);
     xoverflow \<leftarrow> c_sub xe (rw dst);
     (tile_src, tile_dst) \<leftarrow>
       (if xoverflow > 0 then do {
          sw \<leftarrow> c_sub (rw tile_src) xoverflow;
          dw \<leftarrow> c_sub (rw tile_dst) xoverflow;
          Some (tile_src\<lparr>rw := sw\<rparr>, tile_dst\<lparr>rw := dw\<rparr>)
        } else Some (tile_src, tile_dst));
     ye \<leftarrow> c_add (ry tile_dst) (rh tile_dst);
     yoverflow \<leftarrow> c_sub ye (rh dst);
     (if yoverflow > 0 then do {
        sh \<leftarrow> c_sub (rh tile_src) yoverflow;
        dh \<leftarrow> c_sub (rh tile_dst) yoverflow;
        Some (tile_src\<lparr>rh := sh\<rparr>, tile_dst\<lparr>rh := dh\<rparr>)
      } else Some (tile_src, tile_dst))
   }"

text \<open>\<^verbatim>\<open>tile_dst.x += dst.x; tile_dst.y += dst.y;\<close>\<close>

definition make_absolute :: "Rect \<Rightarrow> Rect \<Rightarrow> Rect option" where
  "make_absolute dst tile_dst = do {
     ax \<leftarrow> c_add (rx tile_dst) (rx dst);
     ay \<leftarrow> c_add (ry tile_dst) (ry dst);
     Some (tile_dst\<lparr>rx := ax, ry := ay\<rparr>)
   }"

text \<open>
  Mirroring \<^verbatim>\<open>tile_src\<close> inside \<^verbatim>\<open>src\<close>:
  \<^verbatim>\<open>
  if (flip & SDL_FLIP_HORIZONTAL) tile_src.x = src.w - tile_src.x - tile_src.w;
  if (flip & SDL_FLIP_VERTICAL)   tile_src.y = src.h - tile_src.y - tile_src.h;
  \<close>
\<close>

definition mirror :: "Rect \<Rightarrow> int \<Rightarrow> Rect \<Rightarrow> Rect option" where
  "mirror src flip tile_src = do {
     tile_src \<leftarrow>
       (if flip AND SDL_FLIP_HORIZONTAL \<noteq> 0 then do {
          a \<leftarrow> c_sub (rw src) (rx tile_src);
          b \<leftarrow> c_sub a (rw tile_src);
          Some (tile_src\<lparr>rx := b\<rparr>)
        } else Some tile_src);
     if flip AND SDL_FLIP_VERTICAL \<noteq> 0 then do {
       a \<leftarrow> c_sub (rh src) (ry tile_src);
       b \<leftarrow> c_sub a (rh tile_src);
       Some (tile_src\<lparr>ry := b\<rparr>)
     } else Some tile_src
   }"

text \<open>The body of the inner loop: clamp, make absolute, mirror when flipping, copy.\<close>

definition paint_tile ::
    "renv \<Rightarrow> Rect \<Rightarrow> Rect \<Rightarrow> int \<Rightarrow> int \<Rightarrow> int \<Rightarrow> render_call list \<Rightarrow> outcome \<times> render_call list" where
  "paint_tile R src dst flip x y log =
     (case clamp_tile src dst x y of
        None \<Rightarrow> (Undefined, log)
      | Some (tile_src, tile_dst) \<Rightarrow>
          (case make_absolute dst tile_dst of
             None \<Rightarrow> (Undefined, log)
           | Some tile_dst \<Rightarrow>
               if flip \<noteq> 0 then
                 (case mirror src flip tile_src of
                    None \<Rightarrow> (Undefined, log)
                  | Some tile_src \<Rightarrow> CopyEx R tile_src tile_dst flip log)
               else Copy R tile_src tile_dst log))"

text \<open>
  The loops. \<^verbatim>\<open>for (int x = start_tile.x; x < dst.w; x += start_tile.w) { ... }\<close>
  inside \<^verbatim>\<open>for (int y = start_tile.y; y < dst.h; y += start_tile.h) { ... }\<close>. A loop
  that does not end has the value \<open>None\<close>.
\<close>

partial_function (option) row_loop ::
    "renv \<Rightarrow> Rect \<Rightarrow> Rect \<Rightarrow> int \<Rightarrow> int \<Rightarrow> int \<Rightarrow> render_call list
      \<Rightarrow> (outcome \<times> render_call list) option" where
  "row_loop R src dst flip y x log =
     (if x < rw dst then
        (case paint_tile R src dst flip x y log of
           (Returned, log') \<Rightarrow>
             (case c_add x (rw src) of
                None \<Rightarrow> Some (Undefined, log')
              | Some x' \<Rightarrow> row_loop R src dst flip y x' log')
         | (Threw e, log') \<Rightarrow> Some (Threw e, log')
         | (Undefined, log') \<Rightarrow> Some (Undefined, log'))
      else Some (Returned, log))"

partial_function (option) col_loop ::
    "renv \<Rightarrow> Rect \<Rightarrow> Rect \<Rightarrow> int \<Rightarrow> int \<Rightarrow> int \<Rightarrow> render_call list
      \<Rightarrow> (outcome \<times> render_call list) option" where
  "col_loop R src dst flip sx y log =
     (if y < rh dst then
        (case row_loop R src dst flip y sx log of
           None \<Rightarrow> None
         | Some (Returned, log') \<Rightarrow>
             (case c_add y (rh src) of
                None \<Rightarrow> Some (Undefined, log')
              | Some y' \<Rightarrow> col_loop R src dst flip sx y' log')
         | Some (Threw e, log') \<Rightarrow> Some (Threw e, log')
         | Some (Undefined, log') \<Rightarrow> Some (Undefined, log'))
      else Some (Returned, log))"

text \<open>\<^verbatim>\<open>Renderer::FillCopy(texture, srcrect, dstrect, offset, flip)\<close>\<close>

definition FillCopy ::
    "renv \<Rightarrow> Rect option \<Rightarrow> Rect option \<Rightarrow> Point \<Rightarrow> int \<Rightarrow> render_call list
      \<Rightarrow> (outcome \<times> render_call list) option" where
  "FillCopy R srcrect dstrect offset flip log =
     (case resolve_src R srcrect of
        Inl e \<Rightarrow> Some (Threw e, log)
      | Inr src \<Rightarrow>
          (case resolve_dst R dstrect of
             Inl e \<Rightarrow> Some (Threw e, log)
           | Inr dst \<Rightarrow>
               (case start_tile src offset of
                  None \<Rightarrow> Some (Undefined, log)
                | Some st \<Rightarrow> col_loop R src dst flip (rx st) (ry st) log)))"

declare row_loop.simps [code]

declare col_loop.simps [code]

subsection \<open>The run as a list of planned calls\<close>

text \<open>
  For the proofs, the loops are described by the list of calls they are about to issue.
  The call for the tile at \<open>(x, y)\<close>: the value the loop body computes before it copies
  (\<open>None\<close> when the computation overflows).
\<close>

definition tile_call :: "Rect \<Rightarrow> Rect \<Rightarrow> int \<Rightarrow> int \<Rightarrow> int \<Rightarrow> render_call option" where
  "tile_call src dst flip x y = do {
     (tile_src, tile_dst) \<leftarrow> clamp_tile src dst x y;
     tile_dst \<leftarrow> make_absolute dst tile_dst;
     if flip \<noteq> 0 then do {
       tile_src \<leftarrow> mirror src flip tile_src;
       Some (SDL_RenderCopyEx tile_src tile_dst flip)
     } else Some (SDL_RenderCopy tile_src tile_dst)
   }"

fun native_name :: "render_call \<Rightarrow> string" where
  "native_name (SDL_RenderCopy s d) = ''SDL_RenderCopy''"
| "native_name (SDL_RenderCopyEx s d f) = ''SDL_RenderCopyEx''"

text \<open>
  Issuing a planned list: an entry \<open>None\<close> is a point of undefined behaviour, a call
  whose native code is not zero throws, and nothing is issued after either.
\<close>

fun issue_all :: "renv \<Rightarrow> render_call option list \<Rightarrow> render_call list \<Rightarrow> outcome \<times> render_call list" where
  "issue_all R [] log = (Returned, log)"
| "issue_all R (None # cs) log = (Undefined, log)"
| "issue_all R (Some c # cs) log =
     (if native_rc R log c \<noteq> 0 then (Threw (Exception (native_name c)), log @ [c])
      else issue_all R cs (log @ [c]))"

text \<open>
  The plan of one row from \<open>x\<close> on, and of the rows from \<open>y\<close> on. The checked increment
  bounds the recursion whenever the step is not zero.
\<close>

function plan_row :: "Rect \<Rightarrow> Rect \<Rightarrow> int \<Rightarrow> int \<Rightarrow> int \<Rightarrow> render_call option list" where
  "plan_row src dst flip y x =
     (if rw src \<noteq> 0 \<and> x < rw dst then
        tile_call src dst flip x y #
          (case c_add x (rw src) of None \<Rightarrow> [None] | Some x' \<Rightarrow> plan_row src dst flip y x')
      else [])"
  by pat_completeness auto
termination
  by (relation "measure (\<lambda>(src, dst, flip, y, x).
        if 0 < rw src then nat (INT_MAX - x) else nat (x - INT_MIN))")
    (auto simp: c_add_def chk_def split: if_splits)

function plan :: "Rect \<Rightarrow> Rect \<Rightarrow> int \<Rightarrow> int \<Rightarrow> int \<Rightarrow> render_call option list" where
  "plan src dst flip sx y =
     (if rh src \<noteq> 0 \<and> y < rh dst then
        plan_row src dst flip y sx @
          (case c_add y (rh src) of None \<Rightarrow> [None] | Some y' \<Rightarrow> plan src dst flip sx y')
      else [])"
  by pat_completeness auto
termination
  by (relation "measure (\<lambda>(src, dst, flip, sx, y).
        if 0 < rh src then nat (INT_MAX - y) else nat (y - INT_MIN))")
    (auto simp: c_add_def chk_def split: if_splits)

text \<open>The tile origins along one axis: from \<open>x\<close> in steps of \<open>t\<close> while below \<open>l\<close>.\<close>

function origins :: "int \<Rightarrow> int \<Rightarrow> int \<Rightarrow> int list" where
  "origins t l x = (if 0 < t \<and> x < l then x # origins t l (x + t) else [])"
  by pat_completeness auto
termination
  by (relation "measure (\<lambda>(t, l, x). nat (l - x))") auto

text \<open>
  The pixels of a rectangle, and along one axis the part of a destination of origin \<open>d\<close>
  and extent \<open>l\<close> that a tile of extent \<open>t\<close> placed at \<open>x\<close> covers.
\<close>

definition cells :: "Rect \<Rightarrow> (int \<times> int) set" where
  "cells r = {rx r ..< rx r + rw r} \<times> {ry r ..< ry r + rh r}"

definition seg :: "int \<Rightarrow> int \<Rightarrow> int \<Rightarrow> int \<Rightarrow> int set" where
  "seg d t l x = {d + max x 0 ..< d + min (x + t) l}"

text \<open>A rectangle in coordinates relative to the origin of the destination.\<close>

definition relative :: "Rect \<Rightarrow> Rect \<Rightarrow> Rect" where
  "relative dst r = r\<lparr>rx := rx r - rx dst, ry := ry r - ry dst\<rparr>"

text \<open>A renderer whose second native copy call fails, for the examples.\<close>

definition fail_second :: renv where
  "fail_second = \<lparr>query_texture = Some (4, 4), output_size = Some (10, 10),
     native_rc = (\<lambda>log c. if length log = 1 then - 1 else 0)\<rparr>"

text \<open>The same renderer with a native copy that always succeeds.\<close>

definition succeeding :: "renv \<Rightarrow> renv" where
  "succeeding R = R\<lparr>native_rc := (\<lambda>log c. 0)\<rparr>"

text \<open>Concrete inputs for the examples: a 4 by 4 texture and a 10 by 10 output.\<close>

definition tile4 :: Rect where
  "tile4 = \<lparr>rx = 0, ry = 0, rw = 4, rh = 4\<rparr>"

definition all_ok :: renv where
  "all_ok = \<lparr>query_texture = Some (4, 4), output_size = Some (10, 10), native_rc = (\<lambda>log c. 0)\<rparr>"

text \<open>
  A range of values in which no arithmetic of FillCopy overflows: magnitudes of at
  most \<open>2^30 - 1\<close>.
\<close>

definition small :: "int \<Rightarrow> bool" where
  "small v \<longleftrightarrow> - 1073741823 \<le> v \<and> v \<le> 1073741823"

definition small_rect :: "Rect \<Rightarrow> bool" where
  "small_rect r \<longleftrightarrow> small (rx r) \<and> small (ry r) \<and> small (rw r) \<and> small (rh r)"


section \<open>Ownership: proofs\<close>

lemma dtor_moved_from: "dtor E (moved_from w) = []"
  by (cases w) simp_all

lemma moved_from_idem: "moved_from (moved_from w) = moved_from w"
  by (cases w) simp_all


lemma sole_alt: "sole E w s \<longleftrightarrow> (\<exists>a. held w s a) \<or> gone E w s"
  by (simp add: sole_def held_def gone_def)

lemma gone_obj: "gone E w s \<Longrightarrow> objs s b = Some t \<Longrightarrow> t = moved_from w"
  unfolding gone_def by (metis option.distinct(1) option.inject)

lemma held_obj: "held w s a \<Longrightarrow> b \<noteq> a \<Longrightarrow> objs s b = Some t \<Longrightarrow> t = moved_from w"
  unfolding held_def by (metis option.distinct(1) option.inject)

lemma held_move_construct:
  assumes "held w s a" and "move_construct this other s = Some s'"
  shows "held w s' (if other = a then this else a)"
proof -
  from assms(2) obtain x where x: "objs s this = None" "objs s other = Some x"
    and s': "s' = \<lparr>objs = (objs s)(other \<mapsto> moved_from x, this \<mapsto> x), trace = trace s\<rparr>"
    by (auto simp: move_construct_def split: option.splits)
  from assms(1) x have ne: "this \<noteq> a" by (auto simp: held_def)
  show ?thesis
  proof (cases "other = a")
    case True
    with assms(1) x have "x = w" by (simp add: held_def)
    with True assms(1) ne show ?thesis by (simp add: held_def s')
  next
    case False
    with assms(1) x have "x = moved_from w" by (auto dest: held_obj)
    with False assms(1) ne show ?thesis by (simp add: held_def s' moved_from_idem)
  qed
qed

lemma gone_move_construct:
  assumes "gone E w s" and "move_construct this other s = Some s'"
  shows "gone E w s'"
proof -
  from assms(2) obtain x where x: "objs s this = None" "objs s other = Some x"
    and s': "s' = \<lparr>objs = (objs s)(other \<mapsto> moved_from x, this \<mapsto> x), trace = trace s\<rparr>"
    by (auto simp: move_construct_def split: option.splits)
  from assms(1) x have "x = moved_from w" by (auto dest: gone_obj)
  with assms(1) show ?thesis by (simp add: gone_def s' moved_from_idem)
qed

lemma held_move_assign:
  assumes "held w s a" and "move_assign E this other s = Some s'"
  shows "held w s' (if other = a then this else a) \<or> gone E w s'"
proof (cases "other = this")
  case True
  with assms(2) have "s' = s" by (auto simp: move_assign_def split: option.splits if_splits)
  with True assms(1) show ?thesis by simp
next
  case ne: False
  from assms(2) ne obtain t x where x: "objs s this = Some t" "objs s other = Some x"
    and s': "s' = \<lparr>objs = (objs s)(other \<mapsto> moved_from x, this \<mapsto> x),
                    trace = trace s @ dtor E t\<rparr>"
    by (auto simp: move_assign_def split: option.splits if_splits)
  show ?thesis
  proof (cases "other = a")
    case True
    with assms(1) x have xw: "x = w" by (simp add: held_def)
    from True ne assms(1) x have "t = moved_from w" by (auto dest: held_obj)
    with xw True assms(1) ne have "held w s' this"
      by (simp add: held_def s' dtor_moved_from)
    with True show ?thesis by simp
  next
    case False
    with assms(1) x have xm: "x = moved_from w" by (auto dest: held_obj)
    show ?thesis
    proof (cases "this = a")
      case True
      with assms(1) x have "t = w" by (simp add: held_def)
      with xm True assms(1) ne have "gone E w s'"
        by (auto simp: gone_def held_def s' moved_from_idem)
      then show ?thesis by simp
    next
      case this_ne: False
      with assms(1) x have "t = moved_from w" by (auto dest: held_obj)
      with xm False this_ne assms(1) have "held w s' a"
        by (simp add: held_def s' moved_from_idem dtor_moved_from)
      with False show ?thesis by simp
    qed
  qed
qed

lemma gone_move_assign:
  assumes "gone E w s" and "move_assign E this other s = Some s'"
  shows "gone E w s'"
proof (cases "other = this")
  case True
  with assms(2) have "s' = s" by (auto simp: move_assign_def split: option.splits if_splits)
  with assms(1) show ?thesis by simp
next
  case ne: False
  from assms(2) ne obtain t x where x: "objs s this = Some t" "objs s other = Some x"
    and s': "s' = \<lparr>objs = (objs s)(other \<mapsto> moved_from x, this \<mapsto> x),
                    trace = trace s @ dtor E t\<rparr>"
    by (auto simp: move_assign_def split: option.splits if_splits)
  from assms(1) x have "x = moved_from w" "t = moved_from w" by (auto dest: gone_obj)
  with assms(1) show ?thesis by (simp add: gone_def s' moved_from_idem dtor_moved_from)
qed

lemma held_destroy:
  assumes "held w s a" and "destroy E this s = Some s'"
  shows "held w s' a \<or> gone E w s'"
proof -
  from assms(2) obtain t where t: "objs s this = Some t"
    and s': "s' = \<lparr>objs = (objs s)(this := None), trace = trace s @ dtor E t\<rparr>"
    by (auto simp: destroy_def split: option.splits)
  show ?thesis
  proof (cases "this = a")
    case True
    with assms(1) t have "t = w" by (simp add: held_def)
    with True assms(1) have "gone E w s'" by (auto simp: gone_def held_def s')
    then show ?thesis by simp
  next
    case False
    with assms(1) t have "t = moved_from w" by (auto dest: held_obj)
    with False assms(1) have "held w s' a" by (simp add: held_def s' dtor_moved_from)
    then show ?thesis by simp
  qed
qed

lemma gone_destroy:
  assumes "gone E w s" and "destroy E this s = Some s'"
  shows "gone E w s'"
proof -
  from assms(2) obtain t where t: "objs s this = Some t"
    and s': "s' = \<lparr>objs = (objs s)(this := None), trace = trace s @ dtor E t\<rparr>"
    by (auto simp: destroy_def split: option.splits)
  from assms(1) t have "t = moved_from w" by (auto dest: gone_obj)
  with assms(1) show ?thesis by (simp add: gone_def s' dtor_moved_from)
qed

lemma sole_step:
  assumes "sole E w s" and "step E c s = Some s'"
  shows "sole E w s'"
proof (cases c)
  case (MoveConstruct this other)
  with assms show ?thesis
    by (auto simp: sole_alt dest: held_move_construct gone_move_construct)
next
  case (MoveAssign this other)
  with assms show ?thesis
    by (auto simp: sole_alt dest: held_move_assign gone_move_assign)
next
  case (Destroy this)
  with assms show ?thesis
    by (auto simp: sole_alt dest: held_destroy gone_destroy)
qed

lemma sole_run: "sole E w s \<Longrightarrow> run E cs s = Some s' \<Longrightarrow> sole E w s'"
proof (induction cs arbitrary: s)
  case Nil
  then show ?case by simp
next
  case (Cons c cs)
  then show ?case by (auto split: option.splits dest: sole_step)
qed

lemma sole_one_object: "sole E w (one_object a w)"
  by (auto simp: sole_def one_object_def)

lemma sole_end: "sole E w s \<Longrightarrow> objs s = Map.empty \<Longrightarrow> trace s = dtor E w"
  by (auto simp: sole_def)

lemma run_one_object_end:
  "run E prog (one_object a w) = Some s' \<Longrightarrow> objs s' = Map.empty \<Longrightarrow> trace s' = dtor E w"
  by (blast intro: sole_end sole_run sole_one_object)



subsection \<open>Claims on ownership\<close>



text \<open>
  C9. Move-assigning a live wrapper object of any class to itself returns at the guard
  \<^verbatim>\<open>if (&other == this) return *this;\<close>: no native call is made and the object, with
  every other object, is as it was.
\<close>

theorem self_move_assign_noop:
  assumes "objs s this = Some w"
  shows "move_assign E this this s = Some s"
  using assms by (cases w) (simp_all add: move_assign_def)

theorem self_move_assign_noop_witness:
  "objs (one_object 0 (Renderer (Addr 3))) 0 = Some (Renderer (Addr 3)) \<and>
   move_assign env_nolock 0 0 (one_object 0 (Renderer (Addr 3))) = Some (one_object 0 (Renderer (Addr 3)))"
proof -
  have h: "objs (one_object 0 (Renderer (Addr 3))) 0 = Some (Renderer (Addr 3))"
    by (simp add: one_object_def)
  from self_move_assign_noop [OF h] h show ?thesis by simp
qed

text \<open>
  C8. When the native acquire call of a constructor (for textures: of a factory method
  of the Renderer) reports failure, a null pointer or for \<^verbatim>\<open>Mix_OpenAudio\<close> a non-zero
  code, the construction raises the exception built from the name of just that native
  function, and the state is as before: no object, so no owned handle, and no call.
\<close>

theorem failed_acquire_names_operation:
  "construct this (Window_ctor nullptr) s = (Some (Exception ''SDL_CreateWindow''), s) \<and>
   construct this (Renderer_ctor nullptr) s = (Some (Exception ''SDL_CreateRenderer''), s) \<and>
   construct this (Surface_ctor_RGB nullptr) s = (Some (Exception ''SDL_CreateRGBSurface''), s) \<and>
   construct this (Surface_ctor_RGBFrom nullptr) s =
     (Some (Exception ''SDL_CreateRGBSurfaceFrom''), s) \<and>
   construct this (Surface_ctor_RWops nullptr) s = (Some (Exception ''IMG_Load_RW''), s) \<and>
   construct this (Surface_ctor_file nullptr) s = (Some (Exception ''IMG_Load''), s) \<and>
   construct this (createTexture nullptr) s = (Some (Exception ''SDL_CreateTexture''), s) \<and>
   construct this (createTexture_RWops nullptr) s = (Some (Exception ''IMG_LoadTexture_RW''), s) \<and>
   construct this (createTexture_file nullptr) s = (Some (Exception ''IMG_LoadTexture''), s) \<and>
   construct this (createTexture_Surface nullptr) s =
     (Some (Exception ''SDL_CreateTextureFromSurface''), s) \<and>
   (rc \<noteq> 0 \<longrightarrow> construct this (Mixer_ctor rc) s = (Some (Exception ''Mix_OpenAudio''), s))"
  by (simp add: construct_def Window_ctor_def Renderer_ctor_def Surface_ctor_RGB_def
      Surface_ctor_RGBFrom_def Surface_ctor_RWops_def Surface_ctor_file_def createTexture_def
      createTexture_RWops_def createTexture_file_def createTexture_Surface_def Mixer_ctor_def)

theorem failed_acquire_names_operation_witness:
  "(- 1 :: int) \<noteq> 0 \<and>
   construct 0 (Mixer_ctor (- 1)) (no_objects []) = (Some (Exception ''Mix_OpenAudio''), no_objects []) \<and>
   construct 0 (Renderer_ctor nullptr) (no_objects []) =
     (Some (Exception ''SDL_CreateRenderer''), no_objects [])"
  using failed_acquire_names_operation [of 0 "no_objects []" "- 1"] by simp

text \<open>
  C7, as the code has it. A lock handle obtained from a lock constructor that returned,
  then moved any number of times: when every handle's lifetime has ended, a texture lock
  has made exactly one \<^verbatim>\<open>SDL_UnlockTexture\<close> call on its parent; a surface lock has
  made exactly one \<^verbatim>\<open>SDL_UnlockSurface\<close> call on its parent when \<^verbatim>\<open>SDL_MUSTLOCK\<close>
  holds for the surface, and otherwise none, as its constructor made no
  \<^verbatim>\<open>SDL_LockSurface\<close> call either. A default-constructed handle into which no lock
  is moved makes no unlock call.
\<close>

theorem lock_handle_unlocks:
  assumes "run E prog (one_object a h) = Some s'"
    and "objs s' = Map.empty"
  shows "(Texture_LockHandle_ctor E t rc pixels pitch = (calls, Inr h) \<longrightarrow>
            calls = [SDL_LockTexture (Get E t)] \<and> trace s' = [SDL_UnlockTexture (Get E t)]) \<and>
         (Surface_LockHandle_ctor E t rc = (calls, Inr h) \<longrightarrow>
            (if SDL_MUSTLOCK E (Get E t)
             then calls = [SDL_LockSurface (Get E t)] \<and> trace s' = [SDL_UnlockSurface (Get E t)]
             else calls = [] \<and> trace s' = [])) \<and>
         (h = Texture_LockHandle_default \<or> h = Surface_LockHandle_default \<longrightarrow> trace s' = [])"
proof -
  have tr: "trace s' = dtor E h"
    using assms by (rule run_one_object_end)
  show ?thesis
    unfolding tr
    by (auto simp: Texture_LockHandle_ctor_def Surface_LockHandle_ctor_def
        Texture_LockHandle_default_def Surface_LockHandle_default_def split: if_splits)
qed

theorem lock_handle_unlocks_witness:
  "run env_mustlock [MoveConstruct 1 0, Destroy 0, Destroy 1] (one_object 0 (Texture_LockHandle (Addr 7) (Addr 9) 64))
     = Some (no_objects [SDL_UnlockTexture (Addr 7)]) \<and>
   Texture_LockHandle_ctor env_mustlock 7 0 (Addr 9) 64
     = ([SDL_LockTexture (Addr 7)], Inr (Texture_LockHandle (Addr 7) (Addr 9) 64)) \<and>
   run env_mustlock [Destroy 0] (one_object 0 (Surface_LockHandle (Addr 7)))
     = Some (no_objects [SDL_UnlockSurface (Addr 7)]) \<and>
   Surface_LockHandle_ctor env_mustlock 7 0
     = ([SDL_LockSurface (Addr 7)], Inr (Surface_LockHandle (Addr 7))) \<and>
   run env_mustlock [Destroy 0] (one_object 0 Texture_LockHandle_default) = Some (no_objects [])"
proof -
  have e: "objs (no_objects c) = Map.empty" for c
    by (simp add: no_objects_def)
  have r1: "run env_mustlock [MoveConstruct 1 0, Destroy 0, Destroy 1]
      (one_object 0 (Texture_LockHandle (Addr 7) (Addr 9) 64))
      = Some (no_objects [SDL_UnlockTexture (Addr 7)])"
    by (simp add: one_object_def no_objects_def move_construct_def destroy_def env_mustlock_def)
  have r2: "run env_mustlock [Destroy 0] (one_object 0 (Surface_LockHandle (Addr 7)))
      = Some (no_objects [SDL_UnlockSurface (Addr 7)])"
    by (simp add: one_object_def no_objects_def destroy_def env_mustlock_def)
  have r3: "run env_mustlock [Destroy 0] (one_object 0 Texture_LockHandle_default)
      = Some (no_objects [])"
    by (simp add: one_object_def no_objects_def destroy_def Texture_LockHandle_default_def)
  have c1: "Texture_LockHandle_ctor env_mustlock 7 0 (Addr 9) 64
      = ([SDL_LockTexture (Addr 7)], Inr (Texture_LockHandle (Addr 7) (Addr 9) 64))"
    by (simp add: Texture_LockHandle_ctor_def env_mustlock_def)
  have c2: "Surface_LockHandle_ctor env_mustlock 7 0
      = ([SDL_LockSurface (Addr 7)], Inr (Surface_LockHandle (Addr 7)))"
    by (simp add: Surface_LockHandle_ctor_def env_mustlock_def)
  from lock_handle_unlocks [OF r1 e, of 7 0 "Addr 9" 64 "[SDL_LockTexture (Addr 7)]"]
    lock_handle_unlocks [OF r2 e, of 7 0 "Addr 9" 64 "[SDL_LockSurface (Addr 7)]"]
    lock_handle_unlocks [OF r3 e]
    r1 r2 r3 c1 c2
  show ?thesis by simp
qed

text \<open>
  C7 as stated fails for a surface that needs no locking: the lock is acquired (the
  constructor returns a handle), the handle's lifetime ends, and no unlock call is made.
\<close>

theorem surface_lock_without_unlock:
  "Surface_LockHandle_ctor env_nolock 7 0 = ([], Inr (Surface_LockHandle (Addr 7))) \<and>
   run env_nolock [Destroy 0] (one_object 0 (Surface_LockHandle (Addr 7))) = Some (no_objects []) \<and>
   length (trace (no_objects [])) \<noteq> 1"
  by (simp add: Surface_LockHandle_ctor_def env_nolock_def one_object_def no_objects_def destroy_def)

section \<open>FillCopy: proofs\<close>

subsection \<open>The loops issue the planned calls\<close>

declare plan_row.simps [simp del]

declare plan.simps [simp del]

declare origins.simps [simp del]

lemmas int_arith_defs =
  c_add_def c_sub_def c_neg_def c_mul_def c_div_def chk_def INT_MIN_def INT_MAX_def

lemmas fillcopy_defs =
  FillCopy_def resolve_src_def resolve_dst_def start_tile_def ensure_leftmost_def
  paint_tile_def clamp_tile_def make_absolute_def mirror_def Copy_def CopyEx_def
  SDL_FLIP_HORIZONTAL_def SDL_FLIP_VERTICAL_def

lemma chk_Some [simp]: "chk v = Some u \<longleftrightarrow> u = v \<and> INT_MIN \<le> v \<and> v \<le> INT_MAX"
  by (auto simp: chk_def)

lemma chk_None [simp]: "chk v = None \<longleftrightarrow> \<not> (INT_MIN \<le> v \<and> v \<le> INT_MAX)"
  by (auto simp: chk_def)

lemma paint_tile_eq:
  "paint_tile R src dst flip x y log =
     (case tile_call src dst flip x y of
        None \<Rightarrow> (Undefined, log)
      | Some c \<Rightarrow>
          if native_rc R log c \<noteq> 0 then (Threw (Exception (native_name c)), log @ [c])
          else (Returned, log @ [c]))"
  by (auto simp: paint_tile_def tile_call_def Copy_def CopyEx_def
      split: option.splits Option.bind_splits)

lemma row_loop_plan:
  "rw src \<noteq> 0 \<Longrightarrow>
     row_loop R src dst flip y x log = Some (issue_all R (plan_row src dst flip y x) log)"
proof (induction src dst flip y x arbitrary: log rule: plan_row.induct)
  case (1 src dst flip y x)
  show ?case
  proof (cases "x < rw dst")
    case False
    then show ?thesis
      by (subst row_loop.simps, subst plan_row.simps) simp
  next
    case True
    note lt = this
    show ?thesis
    proof (cases "tile_call src dst flip x y")
      case None
      with lt "1.prems" show ?thesis
        by (subst row_loop.simps, subst plan_row.simps) (simp add: paint_tile_eq)
    next
      case (Some c)
      show ?thesis
      proof (cases "native_rc R log c \<noteq> 0")
        case True
        with Some lt "1.prems" show ?thesis
          by (subst row_loop.simps, subst plan_row.simps) (simp add: paint_tile_eq)
      next
        case False
        show ?thesis
        proof (cases "c_add x (rw src)")
          case None
          with False Some lt "1.prems" show ?thesis
            by (subst row_loop.simps, subst plan_row.simps) (simp add: paint_tile_eq)
        next
          case (Some x')
          from "1.IH" [OF _ Some "1.prems"] lt "1.prems"
          have "row_loop R src dst flip y x' (log @ [c]) =
                Some (issue_all R (plan_row src dst flip y x') (log @ [c]))"
            by simp
          with False \<open>tile_call src dst flip x y = Some c\<close> Some lt "1.prems" show ?thesis
            by (subst row_loop.simps, subst plan_row.simps) (simp add: paint_tile_eq)
        qed
      qed
    qed
  qed
qed

lemma issue_all_append:
  "issue_all R (as @ bs) log =
     (case issue_all R as log of
        (Returned, log') \<Rightarrow> issue_all R bs log'
      | (Threw e, log') \<Rightarrow> (Threw e, log')
      | (Undefined, log') \<Rightarrow> (Undefined, log'))"
proof (induction as arbitrary: log)
  case Nil
  then show ?case by simp
next
  case (Cons a as)
  then show ?case by (cases a) simp_all
qed

lemma col_loop_plan:
  "rw src \<noteq> 0 \<Longrightarrow> rh src \<noteq> 0 \<Longrightarrow>
     col_loop R src dst flip sx y log = Some (issue_all R (plan src dst flip sx y) log)"
proof (induction src dst flip sx y arbitrary: log rule: plan.induct)
  case (1 src dst flip sx y)
  show ?case
  proof (cases "y < rh dst")
    case False
    then show ?thesis
      by (subst col_loop.simps, subst plan.simps) simp
  next
    case True
    note lt = this
    obtain out log' where row: "issue_all R (plan_row src dst flip y sx) log = (out, log')"
      by (cases "issue_all R (plan_row src dst flip y sx) log")
    show ?thesis
    proof (cases out)
      case (Threw e)
      with row lt "1.prems" show ?thesis
        by (subst col_loop.simps, subst plan.simps) (simp add: row_loop_plan issue_all_append)
    next
      case Undefined
      with row lt "1.prems" show ?thesis
        by (subst col_loop.simps, subst plan.simps) (simp add: row_loop_plan issue_all_append)
    next
      case Returned
      show ?thesis
      proof (cases "c_add y (rh src)")
        case None
        with Returned row lt "1.prems" show ?thesis
          by (subst col_loop.simps, subst plan.simps) (simp add: row_loop_plan issue_all_append)
      next
        case (Some y')
        from "1.IH" [OF _ Some "1.prems"] lt "1.prems"
        have "col_loop R src dst flip sx y' log' = Some (issue_all R (plan src dst flip sx y') log')"
          by simp
        with Some Returned row lt "1.prems" show ?thesis
          by (subst col_loop.simps, subst plan.simps) (simp add: row_loop_plan issue_all_append)
      qed
    qed
  qed
qed

lemma c_div_zero [simp]: "c_div a 0 = None"
  by (simp add: c_div_def)

lemma ensure_leftmost_zero: "ensure_leftmost x0 0 = None"
proof (cases "c_add x0 0")
  case None
  then show ?thesis by (simp add: ensure_leftmost_def)
next
  case (Some s)
  then have s: "s = x0" by (simp add: c_add_def)
  show ?thesis
  proof (cases "x0 \<le> 0")
    case True
    with Some s show ?thesis by (simp add: ensure_leftmost_def)
  next
    case False
    with Some s show ?thesis by (simp add: ensure_leftmost_def c_sub_def)
  qed
qed

lemma start_tile_Some:
  assumes "start_tile src offset = Some st"
  shows "rw src \<noteq> 0" and "rh src \<noteq> 0" and "rw st = rw src" and "rh st = rh src"
    and "ensure_leftmost (px offset) (rw src) = Some (rx st)"
    and "ensure_leftmost (py offset) (rh src) = Some (ry st)"
proof -
  from assms obtain sx sy where sx: "ensure_leftmost (px offset) (rw src) = Some sx"
    and sy: "ensure_leftmost (py offset) (rh src) = Some sy"
    and st: "st = \<lparr>rx = sx, ry = sy, rw = rw src, rh = rh src\<rparr>"
    by (auto simp: start_tile_def split: Option.bind_splits)
  from sx show "rw src \<noteq> 0" by (auto simp: ensure_leftmost_zero)
  from sy show "rh src \<noteq> 0" by (auto simp: ensure_leftmost_zero)
  from st show "rw st = rw src" and "rh st = rh src" by simp_all
  from sx st show "ensure_leftmost (px offset) (rw src) = Some (rx st)" by simp
  from sy st show "ensure_leftmost (py offset) (rh src) = Some (ry st)" by simp
qed

text \<open>
  FillCopy always ends: it throws while resolving, it is undefined in the normalisation,
  or it issues its plan.
\<close>

lemma FillCopy_plan:
  "FillCopy R srcrect dstrect offset flip log =
     (case resolve_src R srcrect of
        Inl e \<Rightarrow> Some (Threw e, log)
      | Inr src \<Rightarrow>
          (case resolve_dst R dstrect of
             Inl e \<Rightarrow> Some (Threw e, log)
           | Inr dst \<Rightarrow>
               (case start_tile src offset of
                  None \<Rightarrow> Some (Undefined, log)
                | Some st \<Rightarrow> Some (issue_all R (plan src dst flip (rx st) (ry st)) log))))"
proof (cases "resolve_src R srcrect")
  case (Inl e)
  then show ?thesis by (simp add: FillCopy_def)
next
  case src: (Inr src)
  show ?thesis
  proof (cases "resolve_dst R dstrect")
    case (Inl e)
    with src show ?thesis by (simp add: FillCopy_def)
  next
    case dst: (Inr dst)
    show ?thesis
    proof (cases "start_tile src offset")
      case None
      with src dst show ?thesis by (simp add: FillCopy_def)
    next
      case (Some st)
      from start_tile_Some(1,2) [OF Some] src dst Some show ?thesis
        by (simp add: FillCopy_def col_loop_plan)
    qed
  qed
qed

lemma FillCopy_total: "\<exists>r. FillCopy R srcrect dstrect offset flip log = Some r"
  by (simp add: FillCopy_plan split: sum.splits option.splits)


subsection \<open>Normalising the start tile\<close>

lemma c_div_pos: "0 \<le> a \<Longrightarrow> 0 < b \<Longrightarrow> c_div a b = chk (a div b)"
  by (cases "a = 0") (simp_all add: c_div_def)

lemma div_bounds:
  fixes b w :: int
  assumes "0 < w"
  shows "b div w * w \<le> b" and "b < b div w * w + w"
proof -
  have e: "b = b div w * w + b mod w" by simp
  from assms have "0 \<le> b mod w" and "b mod w < w" by simp_all
  with e show "b div w * w \<le> b" and "b < b div w * w + w" by linarith+
qed

lemma ensure_leftmost_defined:
  assumes w: "0 < w" "w \<le> INT_MAX"
    and x0: "INT_MIN < x0" "x0 + w \<le> INT_MAX"
  shows "\<exists>x. ensure_leftmost x0 w = Some x \<and> - w < x \<and> x \<le> 0 \<and> w dvd (x - x0)"
proof -
  have rng: "INT_MIN < 0" "0 < INT_MAX" "- INT_MAX = INT_MIN + 1"
    by (simp_all add: INT_MIN_def INT_MAX_def)
  from w x0 have s: "c_add x0 w = Some (x0 + w)" by (simp add: c_add_def)
  consider (left) "x0 + w \<le> 0" | (mid) "0 < x0 + w" "x0 \<le> 0" | (right) "0 < x0"
    by linarith
  then show ?thesis
  proof cases
    case left
    define n where "n = - x0"
    define q where "q = n div w"
    from left w have npos: "0 < n" by (simp add: n_def)
    from x0 rng have nle: "n \<le> INT_MAX" by (simp add: n_def)
    from div_bounds [OF w(1), of n] have qb: "q * w \<le> n" "n < q * w + w" by (simp_all add: q_def)
    from npos w have "0 \<le> q" by (simp add: q_def pos_imp_zdiv_nonneg_iff)
    with w have "q * 1 \<le> q * w" by (intro mult_left_mono) simp_all
    with qb have qle: "q \<le> n" by simp
    have cn: "c_neg x0 = Some n" using npos nle rng by (simp add: c_neg_def n_def)
    have cd: "c_div n w = Some q" using npos w \<open>0 \<le> q\<close> qle nle rng by (simp add: c_div_pos q_def)
    have cm: "c_mul q w = Some (q * w)" using qb npos nle rng \<open>0 \<le> q\<close> w
      by (simp add: c_mul_def)
    have ca: "c_add x0 (q * w) = Some (x0 + q * w)" using qb x0 rng w
      by (simp add: c_add_def n_def)
    have le0: "x0 + q * w \<le> 0" using qb by (simp add: n_def)
    have "ensure_leftmost x0 w = Some (x0 + q * w)"
      using s left cn cd cm ca le0 by (simp add: ensure_leftmost_def)
    moreover have "- w < x0 + q * w" using qb by (simp add: n_def)
    moreover have "w dvd (x0 + q * w - x0)" by simp
    ultimately show ?thesis using le0 by blast
  next
    case mid
    with s have "ensure_leftmost x0 w = Some x0" by (simp add: ensure_leftmost_def)
    with mid show ?thesis by simp
  next
    case right
    define b where "b = x0 + w - 1"
    define q where "q = b div w"
    from right w have bpos: "0 < b" by (simp add: b_def)
    from x0 have ble: "b \<le> INT_MAX" by (simp add: b_def)
    from div_bounds [OF w(1), of b] have qb: "q * w \<le> b" "b < q * w + w" by (simp_all add: q_def)
    from bpos w have q0: "0 \<le> q" by (simp add: q_def pos_imp_zdiv_nonneg_iff)
    with w have "q * 1 \<le> q * w" by (intro mult_left_mono) simp_all
    with qb have qle: "q \<le> b" by simp
    from right w have sp: "\<not> x0 + w \<le> 0" by simp
    have c1: "c_add x0 w = Some (x0 + w)" by (rule s)
    have c2: "c_sub (x0 + w) 1 = Some b" using bpos ble rng by (simp add: c_sub_def b_def)
    have c3: "c_div b w = Some q" using bpos w q0 qle ble rng by (simp add: c_div_pos q_def)
    have c4: "c_mul q w = Some (q * w)" using qb bpos ble rng q0 w by (simp add: c_mul_def)
    have lo: "- w < x0 - q * w" using qb by (simp add: b_def)
    have hi: "x0 - q * w \<le> 0" using qb by (simp add: b_def)
    have c5: "c_sub x0 (q * w) = Some (x0 - q * w)" using lo hi w rng by (simp add: c_sub_def)
    have "ensure_leftmost x0 w = Some (x0 - q * w)"
      using s sp right c2 c3 c4 c5 by (simp add: ensure_leftmost_def)
    moreover have "w dvd (x0 - q * w - x0)" by simp
    ultimately show ?thesis using lo hi by blast
  qed
qed

lemma ensure_leftmost_undefined:
  assumes "0 < w" "w \<le> INT_MAX" and "INT_MIN \<le> x0" and "x0 = INT_MIN \<or> INT_MAX < x0 + w"
  shows "ensure_leftmost x0 w = None"
proof (cases "INT_MAX < x0 + w")
  case True
  with assms have "c_add x0 w = None"
    by (auto simp: c_add_def INT_MIN_def INT_MAX_def)
  then show ?thesis by (simp add: ensure_leftmost_def)
next
  case False
  with assms have x: "x0 = INT_MIN" by auto
  with False assms have s: "c_add x0 w = Some (x0 + w)" "x0 + w \<le> 0"
    by (auto simp: c_add_def INT_MIN_def INT_MAX_def)
  from x have "c_neg x0 = None" by (simp add: c_neg_def INT_MIN_def INT_MAX_def)
  with s show ?thesis by (simp add: ensure_leftmost_def)
qed

lemma leftmost_unique:
  fixes a b w :: int
  assumes "- w < a" "a \<le> 0" "- w < b" "b \<le> 0" "w dvd (a - b)"
  shows "a = b"
proof (rule ccontr)
  assume "a \<noteq> b"
  then have "a - b \<noteq> 0" by simp
  with assms(5) have "\<bar>w\<bar> \<le> \<bar>a - b\<bar>" by (simp add: dvd_imp_le_int)
  with assms(1-4) show False by linarith
qed


lemma start_tile_defined:
  assumes "0 < rw src" "rw src \<le> INT_MAX" "0 < rh src" "rh src \<le> INT_MAX"
    and "INT_MIN < px offset" "px offset + rw src \<le> INT_MAX"
    and "INT_MIN < py offset" "py offset + rh src \<le> INT_MAX"
  shows "\<exists>st. start_tile src offset = Some st \<and> rw st = rw src \<and> rh st = rh src \<and>
           - rw src < rx st \<and> rx st \<le> 0 \<and> - rh src < ry st \<and> ry st \<le> 0 \<and>
           rw src dvd (rx st - px offset) \<and> rh src dvd (ry st - py offset)"
proof -
  from ensure_leftmost_defined [OF assms(1,2,5,6)] obtain sx where
    sx: "ensure_leftmost (px offset) (rw src) = Some sx" "- rw src < sx" "sx \<le> 0"
      "rw src dvd (sx - px offset)"
    by blast
  from ensure_leftmost_defined [OF assms(3,4,7,8)] obtain sy where
    sy: "ensure_leftmost (py offset) (rh src) = Some sy" "- rh src < sy" "sy \<le> 0"
      "rh src dvd (sy - py offset)"
    by blast
  from sx(1) sy(1) have "start_tile src offset = Some \<lparr>rx = sx, ry = sy, rw = rw src, rh = rh src\<rparr>"
    by (simp add: start_tile_def)
  with sx sy show ?thesis by simp
qed

lemma start_tile_shift:
  assumes "0 < rw src" "rw src \<le> INT_MAX" "0 < rh src" "rh src \<le> INT_MAX"
    and "INT_MIN < px offset" "px offset + rw src \<le> INT_MAX"
    and "INT_MIN < py offset" "py offset + rh src \<le> INT_MAX"
    and "INT_MIN < px offset'" "px offset' + rw src \<le> INT_MAX"
    and "INT_MIN < py offset'" "py offset' + rh src \<le> INT_MAX"
    and "rw src dvd (px offset' - px offset)" and "rh src dvd (py offset' - py offset)"
  shows "start_tile src offset' = start_tile src offset"
proof -
  from start_tile_defined [OF assms(1-8)] obtain st where
    st: "start_tile src offset = Some st" "rw st = rw src" "rh st = rh src"
      "- rw src < rx st" "rx st \<le> 0" "- rh src < ry st" "ry st \<le> 0"
      "rw src dvd (rx st - px offset)" "rh src dvd (ry st - py offset)"
    by blast
  from start_tile_defined [OF assms(1-4) assms(9-12)] obtain st' where
    st': "start_tile src offset' = Some st'" "rw st' = rw src" "rh st' = rh src"
      "- rw src < rx st'" "rx st' \<le> 0" "- rh src < ry st'" "ry st' \<le> 0"
      "rw src dvd (rx st' - px offset')" "rh src dvd (ry st' - py offset')"
    by blast
  have "rw src dvd (rx st' - px offset') + (px offset' - px offset) - (rx st - px offset)"
    by (rule dvd_diff [OF dvd_add [OF st'(8) assms(13)] st(8)])
  then have dx: "rw src dvd (rx st' - rx st)" by (simp add: algebra_simps)
  have "rh src dvd (ry st' - py offset') + (py offset' - py offset) - (ry st - py offset)"
    by (rule dvd_diff [OF dvd_add [OF st'(9) assms(14)] st(9)])
  then have dy: "rh src dvd (ry st' - ry st)" by (simp add: algebra_simps)
  have "rx st' = rx st" using st'(4,5) st(4,5) dx by (rule leftmost_unique)
  moreover have "ry st' = ry st" using st'(6,7) st(6,7) dy by (rule leftmost_unique)
  ultimately have "st' = st" using st(2,3) st'(2,3) by simp
  with st(1) st'(1) show ?thesis by simp
qed

subsection \<open>Claims on the normalisation\<close>

text \<open>
  C3, as the code has it. For a tile of positive width and height and an offset whose
  normalisation does not overflow the \<^verbatim>\<open>int\<close> range (each component is above
  \<^verbatim>\<open>INT_MIN\<close>, and the component plus the tile extent is at most \<^verbatim>\<open>INT_MAX\<close>), the start
  tile is defined and its origin satisfies \<open>-tw < x \<le> 0\<close> and \<open>-th < y \<le> 0\<close>; it
  differs from the offset by whole tiles. Negative offsets and offsets larger than the
  tile are covered.
\<close>

theorem start_tile_leftmost_topmost:
  assumes "0 < rw src" "rw src \<le> INT_MAX" "0 < rh src" "rh src \<le> INT_MAX"
    and "INT_MIN < px offset" "px offset + rw src \<le> INT_MAX"
    and "INT_MIN < py offset" "py offset + rh src \<le> INT_MAX"
  shows "\<exists>st. start_tile src offset = Some st \<and>
           - rw src < rx st \<and> rx st \<le> 0 \<and> - rh src < ry st \<and> ry st \<le> 0 \<and>
           rw src dvd (rx st - px offset) \<and> rh src dvd (ry st - py offset)"
  using start_tile_defined [OF assms] by blast

theorem start_tile_leftmost_topmost_witness:
  "start_tile tile4 \<lparr>px = - 9, py = 13\<rparr> = Some \<lparr>rx = - 1, ry = - 3, rw = 4, rh = 4\<rparr> \<and>
   (\<exists>st. start_tile tile4 \<lparr>px = - 9, py = 13\<rparr> = Some st \<and>
      - rw tile4 < rx st \<and> rx st \<le> 0 \<and> - rh tile4 < ry st \<and> ry st \<le> 0 \<and>
      rw tile4 dvd (rx st - (- 9)) \<and> rh tile4 dvd (ry st - 13))"
proof -
  have e: "start_tile tile4 \<lparr>px = - 9, py = 13\<rparr> = Some \<lparr>rx = - 1, ry = - 3, rw = 4, rh = 4\<rparr>"
    by (simp add: tile4_def start_tile_def ensure_leftmost_def c_add_def c_sub_def c_neg_def
        c_mul_def c_div_def chk_def INT_MIN_def INT_MAX_def)
  have "\<exists>st. start_tile tile4 \<lparr>px = - 9, py = 13\<rparr> = Some st \<and>
      - rw tile4 < rx st \<and> rx st \<le> 0 \<and> - rh tile4 < ry st \<and> ry st \<le> 0 \<and>
      rw tile4 dvd (rx st - px \<lparr>px = - 9, py = 13\<rparr>) \<and>
      rh tile4 dvd (ry st - py \<lparr>px = - 9, py = 13\<rparr>)"
    by (rule start_tile_leftmost_topmost) (simp_all add: tile4_def INT_MIN_def INT_MAX_def)
  with e show ?thesis by simp
qed

text \<open>
  C3 as stated, for every integer offset, fails at the ends of the \<^verbatim>\<open>int\<close> range:
  with offset \<^verbatim>\<open>x = 2147483646\<close> and tile width \<^verbatim>\<open>2147483647\<close> the sum
  \<^verbatim>\<open>start_tile.x + start_tile.w\<close> overflows, and with offset \<^verbatim>\<open>x = INT_MIN\<close> the
  negation \<^verbatim>\<open>-start_tile.x\<close> does. No start tile is defined there.
\<close>

theorem start_tile_overflow:
  "start_tile \<lparr>rx = 0, ry = 0, rw = 2147483647, rh = 1\<rparr> \<lparr>px = 2147483646, py = 0\<rparr> = None \<and>
   start_tile \<lparr>rx = 0, ry = 0, rw = 1, rh = 1\<rparr> \<lparr>px = - 2147483648, py = 0\<rparr> = None"
  by (simp add: start_tile_def ensure_leftmost_def c_add_def c_sub_def c_neg_def
      c_mul_def c_div_def chk_def INT_MIN_def INT_MAX_def)

text \<open>
  C4, as the code has it. For a source rectangle of positive width \<open>tw\<close> and height
  \<open>th\<close> and every integer \<open>k\<close>: when neither the offset \<open>(ox, oy)\<close> nor the offset
  \<open>(ox + k tw, oy + k th)\<close> overflows in the normalisation, FillCopy ends in both
  invocations, with the same outcome and the same sequence of native copy calls (the
  same source and destination rectangles in the same order).
\<close>

theorem fillcopy_offset_period:
  assumes "resolve_src R srcrect = Inr src"
    and "0 < rw src" "rw src \<le> INT_MAX" "0 < rh src" "rh src \<le> INT_MAX"
    and "INT_MIN < ox" "ox + rw src \<le> INT_MAX"
    and "INT_MIN < oy" "oy + rh src \<le> INT_MAX"
    and "INT_MIN < ox + k * rw src" "ox + k * rw src + rw src \<le> INT_MAX"
    and "INT_MIN < oy + k * rh src" "oy + k * rh src + rh src \<le> INT_MAX"
  shows "FillCopy R srcrect dstrect \<lparr>px = ox + k * rw src, py = oy + k * rh src\<rparr> flip log
           = FillCopy R srcrect dstrect \<lparr>px = ox, py = oy\<rparr> flip log \<and>
         (\<exists>out calls. FillCopy R srcrect dstrect \<lparr>px = ox, py = oy\<rparr> flip log = Some (out, calls))"
proof -
  have "start_tile src \<lparr>px = ox + k * rw src, py = oy + k * rh src\<rparr>
      = start_tile src \<lparr>px = ox, py = oy\<rparr>"
    by (rule start_tile_shift) (use assms in simp_all)
  then have "FillCopy R srcrect dstrect \<lparr>px = ox + k * rw src, py = oy + k * rh src\<rparr> flip log
      = FillCopy R srcrect dstrect \<lparr>px = ox, py = oy\<rparr> flip log"
    by (simp add: FillCopy_plan assms(1) split: sum.splits)
  moreover from FillCopy_total [of R srcrect dstrect "\<lparr>px = ox, py = oy\<rparr>" flip log]
  have "\<exists>out calls. FillCopy R srcrect dstrect \<lparr>px = ox, py = oy\<rparr> flip log = Some (out, calls)"
    by auto
  ultimately show ?thesis by simp
qed


text \<open>
  C4 as stated, for every integer \<open>k\<close>, fails where the shifted offset leaves the range
  in which the normalisation is defined: with tile width \<^verbatim>\<open>2147483647\<close>, offset
  \<open>(-1, 0)\<close> and \<open>k = 1\<close>, the shifted offset \<open>(2147483646, 1)\<close> overflows in
  \<^verbatim>\<open>start_tile.x + start_tile.w\<close> and no tile is copied, while the run with offset
  \<open>(-1, 0)\<close> copies one tile.
\<close>

theorem fillcopy_offset_period_overflow:
  "FillCopy all_ok (Some \<lparr>rx = 0, ry = 0, rw = 2147483647, rh = 1\<rparr>)
     (Some \<lparr>rx = 0, ry = 0, rw = 1, rh = 1\<rparr>) \<lparr>px = - 1 + 1 * 2147483647, py = 0 + 1 * 1\<rparr> 0 []
     = Some (Undefined, []) \<and>
   FillCopy all_ok (Some \<lparr>rx = 0, ry = 0, rw = 2147483647, rh = 1\<rparr>)
     (Some \<lparr>rx = 0, ry = 0, rw = 1, rh = 1\<rparr>) \<lparr>px = - 1, py = 0\<rparr> 0 []
     = Some (Returned, [SDL_RenderCopy \<lparr>rx = 1, ry = 0, rw = 1, rh = 1\<rparr>
                                       \<lparr>rx = 0, ry = 0, rw = 1, rh = 1\<rparr>])"
  by (simp add: fillcopy_defs int_arith_defs col_loop.simps row_loop.simps all_ok_def)

theorem fillcopy_offset_period_witness:
  "resolve_src all_ok (Some tile4) = Inr tile4 \<and>
   FillCopy all_ok (Some tile4) None \<lparr>px = 1 + (- 3) * rw tile4, py = 2 + (- 3) * rh tile4\<rparr> 0 []
     = FillCopy all_ok (Some tile4) None \<lparr>px = 1, py = 2\<rparr> 0 [] \<and>
   (\<exists>out calls. FillCopy all_ok (Some tile4) None \<lparr>px = 1, py = 2\<rparr> 0 [] = Some (out, calls))"
proof -
  have s: "resolve_src all_ok (Some tile4) = Inr tile4"
    by (simp add: resolve_src_def)
  have "FillCopy all_ok (Some tile4) None \<lparr>px = 1 + (- 3) * rw tile4, py = 2 + (- 3) * rh tile4\<rparr> 0 []
     = FillCopy all_ok (Some tile4) None \<lparr>px = 1, py = 2\<rparr> 0 [] \<and>
   (\<exists>out calls. FillCopy all_ok (Some tile4) None \<lparr>px = 1, py = 2\<rparr> 0 [] = Some (out, calls))"
    by (rule fillcopy_offset_period [OF s]) (simp_all add: tile4_def INT_MIN_def INT_MAX_def)
  with s show ?thesis by simp
qed

subsection \<open>What one tile copies\<close>

lemma clamp_tile_Some:
  assumes "clamp_tile src dst x y = Some (ts, td)"
  shows "td = \<lparr>rx = max x 0, ry = max y 0,
               rw = min (x + rw src) (rw dst) - max x 0,
               rh = min (y + rh src) (rh dst) - max y 0\<rparr>"
    and "ts = \<lparr>rx = rx src - min x 0, ry = ry src - min y 0,
               rw = min (x + rw src) (rw dst) - max x 0,
               rh = min (y + rh src) (rh dst) - max y 0\<rparr>"
  using assms
  by (auto simp: clamp_tile_def bind_eq_Some_conv c_add_def c_sub_def c_neg_def Let_def
      split: if_splits)


lemma mirror_Some:
  assumes "mirror src flip ts = Some ts'"
  shows "ts' = \<lparr>rx = (if flip AND SDL_FLIP_HORIZONTAL \<noteq> 0 then rw src - rx ts - rw ts else rx ts),
                ry = (if flip AND SDL_FLIP_VERTICAL \<noteq> 0 then rh src - ry ts - rh ts else ry ts),
                rw = rw ts, rh = rh ts\<rparr>"
  using assms
  by (auto simp: mirror_def bind_eq_Some_conv c_sub_def split: if_splits)

lemma mirror_flip_none: "mirror src 0 ts = Some ts"
  by (simp add: mirror_def)

lemma tile_call_Some:
  assumes "tile_call src dst flip x y = Some c"
  shows "\<exists>ts td. clamp_tile src dst x y = Some (ts, td) \<and>
           call_dst c = td\<lparr>rx := rx td + rx dst, ry := ry td + ry dst\<rparr> \<and>
           call_src c =
             \<lparr>rx = (if flip AND SDL_FLIP_HORIZONTAL \<noteq> 0 then rw src - rx ts - rw ts else rx ts),
              ry = (if flip AND SDL_FLIP_VERTICAL \<noteq> 0 then rh src - ry ts - rh ts else ry ts),
              rw = rw ts, rh = rh ts\<rparr> \<and>
           (flip \<noteq> 0 \<longrightarrow> c = SDL_RenderCopyEx (call_src c) (call_dst c) flip) \<and>
           (flip = 0 \<longrightarrow> c = SDL_RenderCopy (call_src c) (call_dst c))"
proof -
  from assms obtain ts td td' where cl: "clamp_tile src dst x y = Some (ts, td)"
    and ab: "make_absolute dst td = Some td'"
    and c: "(if flip \<noteq> 0 then Option.bind (mirror src flip ts) (\<lambda>s. Some (SDL_RenderCopyEx s td' flip))
             else Some (SDL_RenderCopy ts td')) = Some c"
    by (auto simp: tile_call_def bind_eq_Some_conv)
  from ab have td': "td' = td\<lparr>rx := rx td + rx dst, ry := ry td + ry dst\<rparr>"
    by (auto simp: make_absolute_def bind_eq_Some_conv c_add_def)
  show ?thesis
  proof (cases "flip = 0")
    case True
    with c have "c = SDL_RenderCopy ts td'" by simp
    with True cl td' show ?thesis by simp
  next
    case False
    with c obtain s where m: "mirror src flip ts = Some s" and "c = SDL_RenderCopyEx s td' flip"
      by (auto simp: bind_eq_Some_conv)
    with False cl td' mirror_Some [OF m] show ?thesis by simp
  qed
qed

lemma issue_all_log:
  "issue_all R cs log = (out, log') \<Longrightarrow>
     \<exists>calls. log' = log @ calls \<and> (\<forall>c \<in> set calls. Some c \<in> set cs)"
proof (induction cs arbitrary: log)
  case Nil
  then show ?case by simp
next
  case (Cons a cs)
  show ?case
  proof (cases a)
    case None
    with Cons.prems show ?thesis by simp
  next
    case (Some c)
    show ?thesis
    proof (cases "native_rc R log c \<noteq> 0")
      case True
      with Some Cons.prems have "log' = log @ [c]" by auto
      with Some show ?thesis by simp
    next
      case False
      with Some Cons.prems have "issue_all R cs (log @ [c]) = (out, log')" by simp
      from Cons.IH [OF this] obtain calls where
        "log' = (log @ [c]) @ calls" "\<forall>c \<in> set calls. Some c \<in> set cs"
        by blast
      then have "log' = log @ (c # calls) \<and> (\<forall>d \<in> set (c # calls). Some d \<in> set (a # cs))"
        using Some by simp
      then show ?thesis by blast
    qed
  qed
qed

lemma c_add_Some: "c_add a b = Some c \<Longrightarrow> c = a + b"
  by (simp add: c_add_def)

lemma plan_row_member:
  "Some c \<in> set (plan_row src dst flip y x) \<Longrightarrow>
     \<exists>x'. tile_call src dst flip x' y = Some c \<and> x' < rw dst \<and> (0 < rw src \<longrightarrow> x \<le> x')"
proof (induction src dst flip y x rule: plan_row.induct)
  case (1 src dst flip y x)
  show ?case
  proof (cases "rw src \<noteq> 0 \<and> x < rw dst")
    case False
    with "1.prems" show ?thesis by (subst (asm) plan_row.simps) simp
  next
    case True
    show ?thesis
    proof (cases "tile_call src dst flip x y = Some c")
      case here: True
      with True show ?thesis by auto
    next
      case False
      with True "1.prems" obtain x' where x': "c_add x (rw src) = Some x'"
        and mem: "Some c \<in> set (plan_row src dst flip y x')"
        by (subst (asm) plan_row.simps) (auto split: option.splits)
      from "1.IH" [OF True x' mem] obtain x1 where
        h: "tile_call src dst flip x1 y = Some c" "x1 < rw dst" "0 < rw src \<longrightarrow> x' \<le> x1"
        by blast
      from h(3) c_add_Some [OF x'] have "0 < rw src \<longrightarrow> x \<le> x1" by auto
      with h(1,2) show ?thesis by blast
    qed
  qed
qed

lemma plan_member:
  "Some c \<in> set (plan src dst flip sx y) \<Longrightarrow>
     \<exists>x' y'. tile_call src dst flip x' y' = Some c \<and> x' < rw dst \<and> y' < rh dst \<and>
       (0 < rw src \<longrightarrow> sx \<le> x') \<and> (0 < rh src \<longrightarrow> y \<le> y')"
proof (induction src dst flip sx y rule: plan.induct)
  case (1 src dst flip sx y)
  show ?case
  proof (cases "rh src \<noteq> 0 \<and> y < rh dst")
    case False
    with "1.prems" show ?thesis by (subst (asm) plan.simps) simp
  next
    case True
    show ?thesis
    proof (cases "Some c \<in> set (plan_row src dst flip y sx)")
      case here: True
      from plan_row_member [OF here] True show ?thesis by auto
    next
      case False
      with True "1.prems" obtain y' where y': "c_add y (rh src) = Some y'"
        and mem: "Some c \<in> set (plan src dst flip sx y')"
        by (subst (asm) plan.simps) (auto split: option.splits)
      from "1.IH" [OF True y' mem] obtain x1 y1 where
        h: "tile_call src dst flip x1 y1 = Some c" "x1 < rw dst" "y1 < rh dst"
          "0 < rw src \<longrightarrow> sx \<le> x1" "0 < rh src \<longrightarrow> y' \<le> y1"
        by blast
      from h(5) c_add_Some [OF y'] have "0 < rh src \<longrightarrow> y \<le> y1" by auto
      with h(1-4) show ?thesis by blast
    qed
  qed
qed

lemma FillCopy_log:
  assumes "FillCopy R srcrect dstrect offset flip log = Some (out, log')"
  shows "\<exists>calls. log' = log @ calls \<and>
           (\<forall>c \<in> set calls. \<exists>src dst st x y.
              resolve_src R srcrect = Inr src \<and> resolve_dst R dstrect = Inr dst \<and>
              start_tile src offset = Some st \<and> tile_call src dst flip x y = Some c \<and>
              x < rw dst \<and> y < rh dst \<and>
              (0 < rw src \<longrightarrow> rx st \<le> x) \<and> (0 < rh src \<longrightarrow> ry st \<le> y))"
proof (cases "resolve_src R srcrect")
  case (Inl e)
  with assms have "log' = log @ []" by (simp add: FillCopy_plan)
  then show ?thesis by (metis empty_iff list.set(1))
next
  case src: (Inr src)
  show ?thesis
  proof (cases "resolve_dst R dstrect")
    case (Inl e)
    with src assms have "log' = log @ []" by (simp add: FillCopy_plan)
    then show ?thesis by (metis empty_iff list.set(1))
  next
    case dst: (Inr dst)
    show ?thesis
    proof (cases "start_tile src offset")
      case None
      with src dst assms have "log' = log @ []" by (simp add: FillCopy_plan)
      then show ?thesis by (metis empty_iff list.set(1))
    next
      case (Some st)
      with src dst assms have "issue_all R (plan src dst flip (rx st) (ry st)) log = (out, log')"
        by (simp add: FillCopy_plan)
      from issue_all_log [OF this] obtain calls where
        calls: "log' = log @ calls" "\<forall>c \<in> set calls. Some c \<in> set (plan src dst flip (rx st) (ry st))"
        by blast
      have "\<exists>src dst st x y.
              resolve_src R srcrect = Inr src \<and> resolve_dst R dstrect = Inr dst \<and>
              start_tile src offset = Some st \<and> tile_call src dst flip x y = Some c \<and>
              x < rw dst \<and> y < rh dst \<and>
              (0 < rw src \<longrightarrow> rx st \<le> x) \<and> (0 < rh src \<longrightarrow> ry st \<le> y)"
        if "c \<in> set calls" for c
      proof -
        from calls(2) that have "Some c \<in> set (plan src dst flip (rx st) (ry st))" by blast
        from plan_member [OF this] src dst Some show ?thesis by blast
      qed
      with calls(1) show ?thesis by blast
    qed
  qed
qed


lemma ensure_leftmost_Some:
  assumes "ensure_leftmost x0 w = Some x" and w: "0 < w"
  shows "- w < x" and "x \<le> 0" and "w dvd (x - x0)"
proof -
  from assms(1) obtain s where "c_add x0 w = Some s"
    by (auto simp: ensure_leftmost_def bind_eq_Some_conv)
  then have s: "c_add x0 w = Some (x0 + w)" by (simp add: c_add_def)
  consider (left) "x0 + w \<le> 0" | (mid) "0 < x0 + w" "x0 \<le> 0" | (right) "0 < x0"
    by linarith
  then have "- w < x \<and> x \<le> 0 \<and> w dvd (x - x0)"
  proof cases
    case left
    with assms(1) s obtain n q m x1 where b: "c_neg x0 = Some n" "c_div n w = Some q"
        "c_mul q w = Some m" "c_add x0 m = Some x1"
      and r: "(if 0 < x1 then
                 Option.bind (c_add x1 w) (\<lambda>a. Option.bind (c_sub a 1) (\<lambda>b.
                   Option.bind (c_div b w) (\<lambda>q. Option.bind (c_mul q w) (c_sub x1))))
               else Some x1) = Some x"
      by (auto simp: ensure_leftmost_def bind_eq_Some_conv)
    from b(1) have n: "n = - x0" by (simp add: c_neg_def)
    with left w have "0 \<le> n" by simp
    with b(2) w have q: "q = n div w" by (simp add: c_div_pos)
    from b(3) have m: "m = q * w" by (simp add: c_mul_def)
    from b(4) have x1: "x1 = x0 + q * w" by (simp add: c_add_def m)
    from div_bounds [OF w, of n] have qb: "q * w \<le> n" "n < q * w + w" by (simp_all add: q)
    from qb have "x1 \<le> 0" "- w < x1" by (simp_all add: x1 n)
    with r have "x = x1" by simp
    with \<open>x1 \<le> 0\<close> \<open>- w < x1\<close> x1 show ?thesis by simp
  next
    case mid
    with assms(1) s have "x = x0" by (simp add: ensure_leftmost_def)
    with mid show ?thesis by simp
  next
    case right
    with w have sp: "\<not> x0 + w \<le> 0" by simp
    with assms(1) s right obtain a b q m where c: "c_add x0 w = Some a" "c_sub a 1 = Some b"
        "c_div b w = Some q" "c_mul q w = Some m" "c_sub x0 m = Some x"
      by (auto simp: ensure_leftmost_def bind_eq_Some_conv)
    from c(1,2) have b: "b = x0 + w - 1" by (simp add: c_add_def c_sub_def)
    with right w have "0 \<le> b" by simp
    with c(3) w have q: "q = b div w" by (simp add: c_div_pos)
    from c(4) have m: "m = q * w" by (simp add: c_mul_def)
    from c(5) have x: "x = x0 - q * w" by (simp add: c_sub_def m)
    from div_bounds [OF w, of b] have qb: "q * w \<le> b" "b < q * w + w" by (simp_all add: q)
    from qb have "- w < x" "x \<le> 0" by (simp_all add: x b)
    then show ?thesis by (simp add: x)
  qed
  then show "- w < x" and "x \<le> 0" and "w dvd (x - x0)" by simp_all
qed

lemma tile_call_positive:
  assumes "tile_call src dst flip x y = Some c"
    and "- rw src < x" "x < rw dst" "0 < rw src" "0 < rw dst"
    and "- rh src < y" "y < rh dst" "0 < rh src" "0 < rh dst"
  shows "0 < rw (call_dst c) \<and> 0 < rh (call_dst c)"
proof -
  from tile_call_Some [OF assms(1)] obtain ts td where
    cl: "clamp_tile src dst x y = Some (ts, td)"
    and d: "call_dst c = td\<lparr>rx := rx td + rx dst, ry := ry td + ry dst\<rparr>"
    by blast
  from clamp_tile_Some(1) [OF cl] have
    "rw td = min (x + rw src) (rw dst) - max x 0" "rh td = min (y + rh src) (rh dst) - max y 0"
    by simp_all
  with assms(2-9) d show ?thesis by simp
qed

subsection \<open>Which tile a call copies\<close>







subsection \<open>Claim on the flipped tiles\<close>



subsection \<open>A failing copy\<close>

lemma issue_all_Returned:
  "issue_all R cs log = (Returned, log') \<Longrightarrow> \<exists>calls. cs = map Some calls \<and> log' = log @ calls"
proof (induction cs arbitrary: log)
  case Nil
  then show ?case by simp
next
  case (Cons a cs)
  show ?case
  proof (cases a)
    case None
    with Cons.prems show ?thesis by simp
  next
    case (Some c)
    with Cons.prems have rest: "issue_all R cs (log @ [c]) = (Returned, log')"
      by (simp split: if_splits)
    from Cons.IH [OF rest] obtain calls where "cs = map Some calls" "log' = (log @ [c]) @ calls"
      by blast
    with Some have "a # cs = map Some (c # calls) \<and> log' = log @ (c # calls)" by simp
    then show ?thesis by (rule exI [of _ "c # calls"])
  qed
qed

lemma issue_all_first_failure:
  assumes "k < length calls"
    and "\<forall>i<k. native_rc R (log @ take i calls) (calls ! i) = 0"
    and "native_rc R (log @ take k calls) (calls ! k) \<noteq> 0"
  shows "issue_all R (map Some calls) log =
           (Threw (Exception (native_name (calls ! k))), log @ take (Suc k) calls)"
  using assms
proof (induction calls arbitrary: k log)
  case Nil
  then show ?case by simp
next
  case (Cons c calls)
  show ?case
  proof (cases k)
    case 0
    with Cons.prems show ?thesis by simp
  next
    case (Suc k')
    from Cons.prems(2) Suc have first: "native_rc R log c = 0" by auto
    have len: "k' < length calls" using Cons.prems(1) Suc by simp
    have ok: "\<forall>i<k'. native_rc R ((log @ [c]) @ take i calls) (calls ! i) = 0"
    proof (intro allI impI)
      fix i assume "i < k'"
      with Suc have "Suc i < k" by simp
      with Cons.prems(2) have "native_rc R (log @ take (Suc i) (c # calls)) ((c # calls) ! Suc i) = 0"
        by blast
      then show "native_rc R ((log @ [c]) @ take i calls) (calls ! i) = 0" by simp
    qed
    have bad: "native_rc R ((log @ [c]) @ take k' calls) (calls ! k') \<noteq> 0"
      using Cons.prems(3) Suc by simp
    from Cons.IH [OF len ok bad] first Suc show ?thesis by simp
  qed
qed

lemma issue_all_failure_last:
  "\<exists>out calls. issue_all R cs log = (out, log @ calls) \<and>
     (\<forall>k<length calls. native_rc R (log @ take k calls) (calls ! k) \<noteq> 0 \<longrightarrow>
         Suc k = length calls \<and> out = Threw (Exception (native_name (calls ! k))))"
proof (induction cs arbitrary: log)
  case Nil
  have "issue_all R [] log = (Returned, log @ [])" by simp
  then show ?case by (metis length_0_conv less_nat_zero_code list.size(3))
next
  case (Cons a cs)
  show ?case
  proof (cases a)
    case None
    then have "issue_all R (a # cs) log = (Undefined, log @ [])" by simp
    then show ?thesis by (metis less_nat_zero_code list.size(3))
  next
    case (Some c)
    show ?thesis
    proof (cases "native_rc R log c \<noteq> 0")
      case True
      with Some have "issue_all R (a # cs) log = (Threw (Exception (native_name c)), log @ [c]) \<and>
        (\<forall>k<length [c]. native_rc R (log @ take k [c]) ([c] ! k) \<noteq> 0 \<longrightarrow>
           Suc k = length [c] \<and>
           Threw (Exception (native_name c)) = Threw (Exception (native_name ([c] ! k))))"
        by simp
      then show ?thesis by blast
    next
      case False
      from Cons.IH [of "log @ [c]"] obtain out calls where
        ia: "issue_all R cs (log @ [c]) = (out, (log @ [c]) @ calls)"
        and last: "\<forall>k<length calls. native_rc R ((log @ [c]) @ take k calls) (calls ! k) \<noteq> 0 \<longrightarrow>
           Suc k = length calls \<and> out = Threw (Exception (native_name (calls ! k)))"
        by blast
      from Some False ia have run: "issue_all R (a # cs) log = (out, log @ (c # calls))" by simp
      have "Suc k = length (c # calls) \<and> out = Threw (Exception (native_name ((c # calls) ! k)))"
        if k: "k < length (c # calls)"
          and bad: "native_rc R (log @ take k (c # calls)) ((c # calls) ! k) \<noteq> 0" for k
      proof (cases k)
        case 0
        with bad False show ?thesis by simp
      next
        case (Suc k')
        with k have "k' < length calls" by simp
        moreover from bad Suc have "native_rc R ((log @ [c]) @ take k' calls) (calls ! k') \<noteq> 0"
          by simp
        ultimately have "Suc k' = length calls \<and> out = Threw (Exception (native_name (calls ! k')))"
          using last by blast
        moreover from Suc have "(c # calls) ! k = calls ! k'" by simp
        moreover from Suc have "length (c # calls) = Suc (length calls)" by simp
        ultimately show ?thesis using Suc by metis
      qed
      with run show ?thesis by blast
    qed
  qed
qed

lemma resolve_succeeding [simp]:
  "resolve_src (succeeding R) srcrect = resolve_src R srcrect"
  "resolve_dst (succeeding R) dstrect = resolve_dst R dstrect"
  by (simp_all add: resolve_src_def resolve_dst_def succeeding_def split: option.splits)

text \<open>
  C6. FillCopy ends on every input, and in the list of the native copy calls it has
  issued a call that reports failure is the last one: the run ends there with the
  exception of that copy, named after its native function, the calls issued before it
  stay issued and no call follows it. And where the tile copies in iteration order are
  \<open>tiles\<close> (what FillCopy issues when every native copy succeeds) and the copy for tile
  \<open>k\<close> is the first whose native call reports failure, the calls issued are exactly those
  of the tiles \<open>0 .. k\<close> in order, the failed one last.
\<close>

theorem copy_failure_aborts:
  "(\<exists>out calls. FillCopy R srcrect dstrect offset flip log = Some (out, log @ calls) \<and>
      (\<forall>k<length calls. native_rc R (log @ take k calls) (calls ! k) \<noteq> 0 \<longrightarrow>
         Suc k = length calls \<and>
         out = Threw (Exception (native_name (calls ! k))) \<and>
         (native_name (calls ! k) = ''SDL_RenderCopy'' \<or>
          native_name (calls ! k) = ''SDL_RenderCopyEx''))) \<and>
   (\<forall>tiles k.
      FillCopy (succeeding R) srcrect dstrect offset flip log = Some (Returned, log @ tiles) \<and>
      k < length tiles \<and>
      (\<forall>i<k. native_rc R (log @ take i tiles) (tiles ! i) = 0) \<and>
      native_rc R (log @ take k tiles) (tiles ! k) \<noteq> 0 \<longrightarrow>
        FillCopy R srcrect dstrect offset flip log =
          Some (Threw (Exception (native_name (tiles ! k))), log @ take (Suc k) tiles))"
proof (intro conjI allI impI)
  have name: "native_name c = ''SDL_RenderCopy'' \<or> native_name c = ''SDL_RenderCopyEx''" for c
    by (cases c) simp_all
  have "\<exists>out calls. FillCopy R srcrect dstrect offset flip log = Some (out, log @ calls) \<and>
      (\<forall>k<length calls. native_rc R (log @ take k calls) (calls ! k) \<noteq> 0 \<longrightarrow>
         Suc k = length calls \<and> out = Threw (Exception (native_name (calls ! k))))"
  proof (cases "resolve_src R srcrect")
    case (Inl e)
    then have "FillCopy R srcrect dstrect offset flip log = Some (Threw e, log @ [])"
      by (simp add: FillCopy_plan)
    then show ?thesis by (metis less_nat_zero_code list.size(3))
  next
    case src: (Inr src)
    show ?thesis
    proof (cases "resolve_dst R dstrect")
      case (Inl e)
      with src have "FillCopy R srcrect dstrect offset flip log = Some (Threw e, log @ [])"
        by (simp add: FillCopy_plan)
      then show ?thesis by (metis less_nat_zero_code list.size(3))
    next
      case dst: (Inr dst)
      show ?thesis
      proof (cases "start_tile src offset")
        case None
        with src dst have "FillCopy R srcrect dstrect offset flip log = Some (Undefined, log @ [])"
          by (simp add: FillCopy_plan)
        then show ?thesis by (metis less_nat_zero_code list.size(3))
      next
        case (Some st)
        with src dst have "FillCopy R srcrect dstrect offset flip log =
            Some (issue_all R (plan src dst flip (rx st) (ry st)) log)"
          by (simp add: FillCopy_plan)
        with issue_all_failure_last [of R "plan src dst flip (rx st) (ry st)" log]
        show ?thesis by simp
      qed
    qed
  qed
  then obtain out calls where
    run: "FillCopy R srcrect dstrect offset flip log = Some (out, log @ calls)"
    and last: "\<forall>k<length calls. native_rc R (log @ take k calls) (calls ! k) \<noteq> 0 \<longrightarrow>
         Suc k = length calls \<and> out = Threw (Exception (native_name (calls ! k)))"
    by blast
  from last name have "\<forall>k<length calls. native_rc R (log @ take k calls) (calls ! k) \<noteq> 0 \<longrightarrow>
         Suc k = length calls \<and>
         out = Threw (Exception (native_name (calls ! k))) \<and>
         (native_name (calls ! k) = ''SDL_RenderCopy'' \<or>
          native_name (calls ! k) = ''SDL_RenderCopyEx'')"
    by simp
  with run show "\<exists>out calls. FillCopy R srcrect dstrect offset flip log = Some (out, log @ calls) \<and>
      (\<forall>k<length calls. native_rc R (log @ take k calls) (calls ! k) \<noteq> 0 \<longrightarrow>
         Suc k = length calls \<and>
         out = Threw (Exception (native_name (calls ! k))) \<and>
         (native_name (calls ! k) = ''SDL_RenderCopy'' \<or>
          native_name (calls ! k) = ''SDL_RenderCopyEx''))"
    by (intro exI conjI)
next
  fix tiles k
  assume a: "FillCopy (succeeding R) srcrect dstrect offset flip log = Some (Returned, log @ tiles) \<and>
      k < length tiles \<and>
      (\<forall>i<k. native_rc R (log @ take i tiles) (tiles ! i) = 0) \<and>
      native_rc R (log @ take k tiles) (tiles ! k) \<noteq> 0"
  then have full: "FillCopy (succeeding R) srcrect dstrect offset flip log = Some (Returned, log @ tiles)"
    and k: "k < length tiles"
    and ok: "\<forall>i<k. native_rc R (log @ take i tiles) (tiles ! i) = 0"
    and bad: "native_rc R (log @ take k tiles) (tiles ! k) \<noteq> 0"
    by simp_all
  from full obtain src dst st where s: "resolve_src R srcrect = Inr src"
    and d: "resolve_dst R dstrect = Inr dst" and st: "start_tile src offset = Some st"
    and run: "issue_all (succeeding R) (plan src dst flip (rx st) (ry st)) log = (Returned, log @ tiles)"
    by (auto simp: FillCopy_plan split: sum.splits option.splits)
  from issue_all_Returned [OF run] have p: "plan src dst flip (rx st) (ry st) = map Some tiles"
    by auto
  from s d st p have "FillCopy R srcrect dstrect offset flip log = Some (issue_all R (map Some tiles) log)"
    by (simp add: FillCopy_plan)
  with issue_all_first_failure [OF k ok bad]
  show "FillCopy R srcrect dstrect offset flip log =
      Some (Threw (Exception (native_name (tiles ! k))), log @ take (Suc k) tiles)"
    by simp
qed

theorem copy_failure_aborts_witness:
  "FillCopy (succeeding fail_second) (Some tile4) (Some \<lparr>rx = 0, ry = 0, rw = 10, rh = 4\<rparr>)
       \<lparr>px = 0, py = 0\<rparr> 0 [] =
     Some (Returned, [] @
       [SDL_RenderCopy \<lparr>rx = 0, ry = 0, rw = 4, rh = 4\<rparr> \<lparr>rx = 0, ry = 0, rw = 4, rh = 4\<rparr>,
        SDL_RenderCopy \<lparr>rx = 0, ry = 0, rw = 4, rh = 4\<rparr> \<lparr>rx = 4, ry = 0, rw = 4, rh = 4\<rparr>,
        SDL_RenderCopy \<lparr>rx = 0, ry = 0, rw = 2, rh = 4\<rparr> \<lparr>rx = 8, ry = 0, rw = 2, rh = 4\<rparr>]) \<and>
   FillCopy fail_second (Some tile4) (Some \<lparr>rx = 0, ry = 0, rw = 10, rh = 4\<rparr>)
       \<lparr>px = 0, py = 0\<rparr> 0 [] =
     Some (Threw (Exception ''SDL_RenderCopy''),
       [SDL_RenderCopy \<lparr>rx = 0, ry = 0, rw = 4, rh = 4\<rparr> \<lparr>rx = 0, ry = 0, rw = 4, rh = 4\<rparr>,
        SDL_RenderCopy \<lparr>rx = 0, ry = 0, rw = 4, rh = 4\<rparr> \<lparr>rx = 4, ry = 0, rw = 4, rh = 4\<rparr>]) \<and>
   (\<exists>out calls.
      FillCopy fail_second (Some tile4) (Some \<lparr>rx = 0, ry = 0, rw = 10, rh = 4\<rparr>)
        \<lparr>px = 0, py = 0\<rparr> 0 [] = Some (out, [] @ calls) \<and>
      1 < length calls \<and>
      native_rc fail_second ([] @ take 1 calls) (calls ! 1) \<noteq> 0 \<and>
      Suc 1 = length calls \<and>
      out = Threw (Exception (native_name (calls ! 1))) \<and>
      native_name (calls ! 1) = ''SDL_RenderCopy'')"
proof -
  let ?c1 = "SDL_RenderCopy \<lparr>rx = 0, ry = 0, rw = 4, rh = 4\<rparr> \<lparr>rx = 0, ry = 0, rw = 4, rh = 4\<rparr>"
  let ?c2 = "SDL_RenderCopy \<lparr>rx = 0, ry = 0, rw = 4, rh = 4\<rparr> \<lparr>rx = 4, ry = 0, rw = 4, rh = 4\<rparr>"
  let ?c3 = "SDL_RenderCopy \<lparr>rx = 0, ry = 0, rw = 2, rh = 4\<rparr> \<lparr>rx = 8, ry = 0, rw = 2, rh = 4\<rparr>"
  let ?tiles = "[?c1, ?c2, ?c3]"
  let ?d = "\<lparr>rx = 0, ry = 0, rw = 10, rh = 4\<rparr>"
  note t = copy_failure_aborts [of fail_second "Some tile4" "Some ?d" "\<lparr>px = 0, py = 0\<rparr>" 0 "[]"]
  have r: "FillCopy (succeeding fail_second) (Some tile4) (Some ?d) \<lparr>px = 0, py = 0\<rparr> 0 [] =
      Some (Returned, [] @ ?tiles)"
    by (simp add: fillcopy_defs int_arith_defs col_loop.simps row_loop.simps tile4_def
        succeeding_def fail_second_def)
  have k: "1 < length ?tiles" by simp
  have ok: "\<forall>i<1. native_rc fail_second ([] @ take i ?tiles) (?tiles ! i) = 0"
    by (simp add: fail_second_def)
  have bad: "native_rc fail_second ([] @ take 1 ?tiles) (?tiles ! 1) \<noteq> 0"
    by (simp add: fail_second_def)
  from t have "FillCopy (succeeding fail_second) (Some tile4) (Some ?d) \<lparr>px = 0, py = 0\<rparr> 0 [] =
        Some (Returned, [] @ ?tiles) \<and>
      1 < length ?tiles \<and>
      (\<forall>i<1. native_rc fail_second ([] @ take i ?tiles) (?tiles ! i) = 0) \<and>
      native_rc fail_second ([] @ take 1 ?tiles) (?tiles ! 1) \<noteq> 0 \<longrightarrow>
        FillCopy fail_second (Some tile4) (Some ?d) \<lparr>px = 0, py = 0\<rparr> 0 [] =
          Some (Threw (Exception (native_name (?tiles ! 1))), [] @ take (Suc 1) ?tiles)"
    by blast
  with r k ok bad
  have "FillCopy fail_second (Some tile4) (Some ?d) \<lparr>px = 0, py = 0\<rparr> 0 [] =
          Some (Threw (Exception (native_name (?tiles ! 1))), [] @ take (Suc 1) ?tiles)"
    by blast
  then have thrown: "FillCopy fail_second (Some tile4) (Some ?d) \<lparr>px = 0, py = 0\<rparr> 0 [] =
      Some (Threw (Exception ''SDL_RenderCopy''), [?c1, ?c2])"
    by simp
  from t obtain out calls where
    run: "FillCopy fail_second (Some tile4) (Some ?d) \<lparr>px = 0, py = 0\<rparr> 0 [] = Some (out, [] @ calls)"
    and last: "\<forall>k<length calls. native_rc fail_second ([] @ take k calls) (calls ! k) \<noteq> 0 \<longrightarrow>
         Suc k = length calls \<and>
         out = Threw (Exception (native_name (calls ! k))) \<and>
         (native_name (calls ! k) = ''SDL_RenderCopy'' \<or>
          native_name (calls ! k) = ''SDL_RenderCopyEx'')"
    by blast
  from run thrown have calls: "calls = [?c1, ?c2]" by simp
  then have len: "1 < length calls" by simp
  from calls have fails: "native_rc fail_second ([] @ take 1 calls) (calls ! 1) \<noteq> 0"
    by (simp add: fail_second_def)
  from last len fails have concl: "Suc 1 = length calls"
    "out = Threw (Exception (native_name (calls ! 1)))"
    by blast+
  from calls have nm: "native_name (calls ! 1) = ''SDL_RenderCopy''" by simp
  from run len fails concl nm have "\<exists>out calls.
      FillCopy fail_second (Some tile4) (Some ?d) \<lparr>px = 0, py = 0\<rparr> 0 [] = Some (out, [] @ calls) \<and>
      1 < length calls \<and>
      native_rc fail_second ([] @ take 1 calls) (calls ! 1) \<noteq> 0 \<and>
      Suc 1 = length calls \<and>
      out = Threw (Exception (native_name (calls ! 1))) \<and>
      native_name (calls ! 1) = ''SDL_RenderCopy''"
    by (intro exI conjI)
  with r thrown show ?thesis by (intro conjI)
qed

subsection \<open>The tiles cover the destination\<close>

lemma origins_ge: "x' \<in> set (origins t l x) \<Longrightarrow> x \<le> x'"
proof (induction t l x rule: origins.induct)
  case (1 t l x)
  show ?case
  proof (cases "0 < t \<and> x < l")
    case False
    with "1.prems" show ?thesis by (subst (asm) origins.simps) simp
  next
    case True
    with "1.prems" have "x' = x \<or> x' \<in> set (origins t l (x + t))"
      by (subst (asm) origins.simps) simp
    with "1.IH" [OF True] True show ?thesis by auto
  qed
qed

lemma origins_sorted: "sorted_wrt (\<lambda>a b. a + t \<le> b) (origins t l x)"
proof (induction t l x rule: origins.induct)
  case (1 t l x)
  show ?case
  proof (cases "0 < t \<and> x < l")
    case False
    then show ?thesis by (subst origins.simps) auto
  next
    case True
    have "sorted_wrt (\<lambda>a b. a + t \<le> b) (x # origins t l (x + t))"
      using "1.IH" [OF True] origins_ge [of _ t l "x + t"] by auto
    with True show ?thesis by (subst origins.simps) simp
  qed
qed

lemma seg_disjoint: "a + t \<le> b \<Longrightarrow> seg d t l a \<inter> seg d t l b = {}"
  by (auto simp: seg_def)

lemma origins_cover:
  "0 < t \<Longrightarrow> - t < x \<Longrightarrow> (\<Union>x' \<in> set (origins t l x). seg d t l x') = {d + max x 0 ..< d + l}"
proof (induction t l x rule: origins.induct)
  case (1 t l x)
  show ?case
  proof (cases "x < l")
    case False
    with "1.prems" show ?thesis by (subst origins.simps) auto
  next
    case True
    with "1.prems" have c: "0 < t \<and> x < l" by simp
    from "1.prems" have "- t < x + t" by simp
    from "1.IH" [OF c "1.prems"(1) this]
    have rest: "(\<Union>x' \<in> set (origins t l (x + t)). seg d t l x') = {d + max (x + t) 0 ..< d + l}" .
    have "(\<Union>x' \<in> set (origins t l x). seg d t l x') =
        seg d t l x \<union> (\<Union>x' \<in> set (origins t l (x + t)). seg d t l x')"
      using c by (subst origins.simps) simp
    also have "\<dots> = {d + max x 0 ..< d + min (x + t) l} \<union> {d + max (x + t) 0 ..< d + l}"
      unfolding rest by (simp add: seg_def)
    also have "\<dots> = {d + max x 0 ..< d + l}"
      using "1.prems" True by auto
    finally show ?thesis .
  qed
qed

lemma cells_tile_call:
  assumes "tile_call src dst flip x y = Some c"
  shows "cells (call_dst c) = seg (rx dst) (rw src) (rw dst) x \<times> seg (ry dst) (rh src) (rh dst) y"
proof -
  from tile_call_Some [OF assms] obtain ts td where
    cl: "clamp_tile src dst x y = Some (ts, td)"
    and d: "call_dst c = td\<lparr>rx := rx td + rx dst, ry := ry td + ry dst\<rparr>"
    by blast
  from clamp_tile_Some(1) [OF cl] d show ?thesis
    by (auto simp: cells_def seg_def)
qed

lemma plan_row_defined:
  assumes "None \<notin> set (plan_row src dst flip y x)" and "0 < rw src"
  shows "plan_row src dst flip y x =
           map (\<lambda>x'. tile_call src dst flip x' y) (origins (rw src) (rw dst) x)"
  using assms
proof (induction src dst flip y x rule: plan_row.induct)
  case (1 src dst flip y x)
  show ?case
  proof (cases "x < rw dst")
    case False
    with "1.prems" show ?thesis
      by (subst plan_row.simps, subst origins.simps) simp
  next
    case True
    with "1.prems" have c: "rw src \<noteq> 0 \<and> x < rw dst" by simp
    from "1.prems"(1) c obtain x' where x': "c_add x (rw src) = Some x'"
      and rest: "None \<notin> set (plan_row src dst flip y x')"
      by (subst (asm) plan_row.simps) (auto split: option.splits)
    from c_add_Some [OF x'] have e: "x' = x + rw src" .
    from "1.IH" [OF c x' rest "1.prems"(2)] c x' e "1.prems"(2) show ?thesis
      by (subst plan_row.simps, subst origins.simps) simp
  qed
qed

lemma plan_defined:
  assumes "None \<notin> set (plan src dst flip sx y)" and "0 < rw src" and "0 < rh src"
  shows "plan src dst flip sx y =
           concat (map (\<lambda>y'. map (\<lambda>x'. tile_call src dst flip x' y') (origins (rw src) (rw dst) sx))
                       (origins (rh src) (rh dst) y))"
  using assms
proof (induction src dst flip sx y rule: plan.induct)
  case (1 src dst flip sx y)
  show ?case
  proof (cases "y < rh dst")
    case False
    with "1.prems" show ?thesis
      by (subst plan.simps, subst origins.simps) simp
  next
    case True
    with "1.prems" have c: "rh src \<noteq> 0 \<and> y < rh dst" by simp
    from "1.prems"(1) c obtain y' where y': "c_add y (rh src) = Some y'"
      and row: "None \<notin> set (plan_row src dst flip y sx)"
      and rest: "None \<notin> set (plan src dst flip sx y')"
      by (subst (asm) plan.simps) (auto split: option.splits)
    from c_add_Some [OF y'] have e: "y' = y + rh src" .
    from "1.IH" [OF c y' rest "1.prems"(2,3)] plan_row_defined [OF row "1.prems"(2)]
      c y' e "1.prems"(3)
    show ?thesis
      by (subst plan.simps, subst origins.simps) simp
  qed
qed

lemma sorted_wrt_concat:
  assumes "\<forall>l \<in> set ls. sorted_wrt Q l"
    and "sorted_wrt (\<lambda>l1 l2. \<forall>a \<in> set l1. \<forall>b \<in> set l2. Q a b) ls"
  shows "sorted_wrt Q (concat ls)"
  using assms
proof (induction ls)
  case Nil
  then show ?case by simp
next
  case (Cons l ls)
  then show ?case by (auto simp: sorted_wrt_append)
qed


text \<open>The origins of a grid, row by row, and the sets they stand for.\<close>

lemma grid_disjoint:
  assumes xs: "sorted_wrt (\<lambda>a b. A a \<inter> A b = {}) xs"
    and ys: "sorted_wrt (\<lambda>a b. B a \<inter> B b = {}) ys"
  shows "sorted_wrt (\<lambda>p q. (A (fst p) \<times> B (snd p)) \<inter> (A (fst q) \<times> B (snd q)) = {})
           (concat (map (\<lambda>y. map (\<lambda>x. (x, y)) xs) ys))"
proof (rule sorted_wrt_concat)
  show "\<forall>l \<in> set (map (\<lambda>y. map (\<lambda>x. (x, y)) xs) ys).
          sorted_wrt (\<lambda>p q. (A (fst p) \<times> B (snd p)) \<inter> (A (fst q) \<times> B (snd q)) = {}) l"
  proof
    fix l assume "l \<in> set (map (\<lambda>y. map (\<lambda>x. (x, y)) xs) ys)"
    then obtain y where l: "l = map (\<lambda>x. (x, y)) xs" by auto
    have "sorted_wrt (\<lambda>a b. (A a \<times> B y) \<inter> (A b \<times> B y) = {}) xs"
      by (rule sorted_wrt_mono_rel [OF _ xs]) auto
    then show "sorted_wrt (\<lambda>p q. (A (fst p) \<times> B (snd p)) \<inter> (A (fst q) \<times> B (snd q)) = {}) l"
      by (simp add: l sorted_wrt_map)
  qed
next
  have "sorted_wrt (\<lambda>y1 y2. \<forall>a \<in> set (map (\<lambda>x. (x, y1)) xs). \<forall>b \<in> set (map (\<lambda>x. (x, y2)) xs).
          (A (fst a) \<times> B (snd a)) \<inter> (A (fst b) \<times> B (snd b)) = {}) ys"
    by (rule sorted_wrt_mono_rel [OF _ ys]) auto
  then show "sorted_wrt (\<lambda>l1 l2. \<forall>a \<in> set l1. \<forall>b \<in> set l2.
          (A (fst a) \<times> B (snd a)) \<inter> (A (fst b) \<times> B (snd b)) = {})
          (map (\<lambda>y. map (\<lambda>x. (x, y)) xs) ys)"
    by (simp add: sorted_wrt_map)
qed

lemma grid_union:
  "(\<Union>p \<in> set (concat (map (\<lambda>y. map (\<lambda>x. (x, y)) xs) ys)). A (fst p) \<times> B (snd p)) =
     (\<Union>x \<in> set xs. A x) \<times> (\<Union>y \<in> set ys. B y)"
  by auto

lemma sorted_wrt_nth_neq:
  assumes "sorted_wrt P l" and sym: "\<And>a b. P a b \<Longrightarrow> P b a"
    and "i < length l" "j < length l" "i \<noteq> j"
  shows "P (l ! i) (l ! j)"
proof (cases "i < j")
  case True
  with assms(1,4) show ?thesis by (simp add: sorted_wrt_iff_nth_less)
next
  case False
  with assms(5) have "j < i" by simp
  with assms(1,3) have "P (l ! j) (l ! i)" by (simp add: sorted_wrt_iff_nth_less)
  then show ?thesis by (rule sym)
qed

text \<open>
  A list of sets that matches a grid of origins position by position covers the
  rectangle and has no overlap.
\<close>

lemma grid_partition:
  fixes D :: "'c \<Rightarrow> (int \<times> int) set"
  assumes t: "0 < tw" "0 < th" and s: "- tw < sx" "sx \<le> 0" "- th < sy" "sy \<le> 0"
    and pairs: "pairs = concat (map (\<lambda>y. map (\<lambda>x. (x, y)) (origins tw w sx)) (origins th h sy))"
    and len: "length calls = length pairs"
    and D: "\<And>i. i < length calls \<Longrightarrow>
              D (calls ! i) = seg d1 tw w (fst (pairs ! i)) \<times> seg d2 th h (snd (pairs ! i))"
  shows "(\<Union>c \<in> set calls. D c) = {d1 ..< d1 + w} \<times> {d2 ..< d2 + h}"
    and "\<forall>i<length calls. \<forall>j<length calls. i \<noteq> j \<longrightarrow> D (calls ! i) \<inter> D (calls ! j) = {}"
proof -
  let ?F = "\<lambda>p. seg d1 tw w (fst p) \<times> seg d2 th h (snd p)"
  have m: "map D calls = map ?F pairs"
    by (rule nth_equalityI) (simp_all add: len D)
  have "(\<Union>c \<in> set calls. D c) = \<Union> (set (map D calls))" by simp
  also have "\<dots> = (\<Union>p \<in> set pairs. ?F p)" unfolding m by simp
  also have "\<dots> = (\<Union>x \<in> set (origins tw w sx). seg d1 tw w x) \<times>
                    (\<Union>y \<in> set (origins th h sy). seg d2 th h y)"
    unfolding pairs by (rule grid_union)
  also have "\<dots> = {d1 + max sx 0 ..< d1 + w} \<times> {d2 + max sy 0 ..< d2 + h}"
    by (simp add: origins_cover t s)
  also have "\<dots> = {d1 ..< d1 + w} \<times> {d2 ..< d2 + h}"
    using s by (simp add: max_def)
  finally show "(\<Union>c \<in> set calls. D c) = {d1 ..< d1 + w} \<times> {d2 ..< d2 + h}" .
  have xs: "sorted_wrt (\<lambda>a b. seg d1 tw w a \<inter> seg d1 tw w b = {}) (origins tw w sx)"
    by (rule sorted_wrt_mono_rel [OF _ origins_sorted]) (simp add: seg_disjoint)
  have ys: "sorted_wrt (\<lambda>a b. seg d2 th h a \<inter> seg d2 th h b = {}) (origins th h sy)"
    by (rule sorted_wrt_mono_rel [OF _ origins_sorted]) (simp add: seg_disjoint)
  have "sorted_wrt (\<lambda>p q. ?F p \<inter> ?F q = {}) pairs"
    unfolding pairs by (rule grid_disjoint [OF xs ys])
  then have sw: "sorted_wrt (\<lambda>a b. a \<inter> b = {}) (map D calls)"
    unfolding m by (simp add: sorted_wrt_map)
  show "\<forall>i<length calls. \<forall>j<length calls. i \<noteq> j \<longrightarrow> D (calls ! i) \<inter> D (calls ! j) = {}"
  proof (intro allI impI)
    fix i j assume ij: "i < length calls" "j < length calls" "i \<noteq> j"
    have "(map D calls ! i) \<inter> (map D calls ! j) = {}"
      by (rule sorted_wrt_nth_neq [OF sw]) (use ij in auto)
    with ij show "D (calls ! i) \<inter> D (calls ! j) = {}" by simp
  qed
qed


lemma cells_relative_tile_call:
  assumes "tile_call src dst flip x y = Some c"
  shows "cells (relative dst (call_dst c)) = seg 0 (rw src) (rw dst) x \<times> seg 0 (rh src) (rh dst) y"
proof -
  from tile_call_Some [OF assms] obtain ts td where
    cl: "clamp_tile src dst x y = Some (ts, td)"
    and d: "call_dst c = td\<lparr>rx := rx td + rx dst, ry := ry td + ry dst\<rparr>"
    by blast
  from clamp_tile_Some(1) [OF cl] d show ?thesis
    by (auto simp: cells_def seg_def relative_def)
qed

lemma concat_grid:
  "concat (map (\<lambda>y. map (\<lambda>x. f x y) xs) ys) =
     map (\<lambda>p. f (fst p) (snd p)) (concat (map (\<lambda>y. map (\<lambda>x. (x, y)) xs) ys))"
  by (induction ys) simp_all

lemma FillCopy_Returned_grid:
  assumes "resolve_src R srcrect = Inr src" and "resolve_dst R dstrect = Inr dst"
    and "0 < rw src" "0 < rh src"
    and "FillCopy R srcrect dstrect offset flip log = Some (Returned, log')"
  shows "\<exists>calls st. log' = log @ calls \<and> start_tile src offset = Some st \<and>
           length calls =
             length (concat (map (\<lambda>y. map (\<lambda>x. (x, y)) (origins (rw src) (rw dst) (rx st)))
                                 (origins (rh src) (rh dst) (ry st)))) \<and>
           (\<forall>i<length calls.
              tile_call src dst flip
                (fst (concat (map (\<lambda>y. map (\<lambda>x. (x, y)) (origins (rw src) (rw dst) (rx st)))
                                  (origins (rh src) (rh dst) (ry st))) ! i))
                (snd (concat (map (\<lambda>y. map (\<lambda>x. (x, y)) (origins (rw src) (rw dst) (rx st)))
                                  (origins (rh src) (rh dst) (ry st))) ! i))
              = Some (calls ! i))"
proof -
  from assms(1,2,5) obtain st where st: "start_tile src offset = Some st"
    and run: "issue_all R (plan src dst flip (rx st) (ry st)) log = (Returned, log')"
    by (auto simp: FillCopy_plan split: option.splits)
  from issue_all_Returned [OF run] obtain calls where
    p: "plan src dst flip (rx st) (ry st) = map Some calls" and log': "log' = log @ calls"
    by blast
  define pairs where "pairs = concat (map (\<lambda>y. map (\<lambda>x. (x, y)) (origins (rw src) (rw dst) (rx st)))
                                 (origins (rh src) (rh dst) (ry st)))"
  from p have "None \<notin> set (plan src dst flip (rx st) (ry st))" by auto
  from plan_defined [OF this assms(3,4)] p
  have "map Some calls =
      concat (map (\<lambda>y. map (\<lambda>x. tile_call src dst flip x y) (origins (rw src) (rw dst) (rx st)))
                  (origins (rh src) (rh dst) (ry st)))"
    by simp
  also have "\<dots> = map (\<lambda>p. tile_call src dst flip (fst p) (snd p)) pairs"
    unfolding pairs_def by (rule concat_grid)
  finally have "map Some calls = map (\<lambda>p. tile_call src dst flip (fst p) (snd p)) pairs" .
  then have len: "length calls = length pairs"
    and nth: "\<forall>i<length calls. tile_call src dst flip (fst (pairs ! i)) (snd (pairs ! i)) = Some (calls ! i)"
    by (auto simp: list_eq_iff_nth_eq)
  with log' st show ?thesis unfolding pairs_def by blast
qed

lemma returned_tiles_partition:
  assumes "resolve_src R srcrect = Inr src" and "resolve_dst R dstrect = Inr dst"
    and "0 < rw src" "0 < rh src"
    and "FillCopy R srcrect dstrect offset flip log = Some (Returned, log')"
  shows "\<exists>calls. log' = log @ calls \<and>
           (\<Union>c \<in> set calls. cells (relative dst (call_dst c))) = {0 ..< rw dst} \<times> {0 ..< rh dst} \<and>
           (\<Union>c \<in> set calls. cells (call_dst c)) = cells dst \<and>
           (\<forall>i<length calls. \<forall>j<length calls. i \<noteq> j \<longrightarrow>
              cells (call_dst (calls ! i)) \<inter> cells (call_dst (calls ! j)) = {})"
proof -
  from FillCopy_Returned_grid [OF assms] obtain calls st where log': "log' = log @ calls"
    and st: "start_tile src offset = Some st"
    and len: "length calls =
             length (concat (map (\<lambda>y. map (\<lambda>x. (x, y)) (origins (rw src) (rw dst) (rx st)))
                                 (origins (rh src) (rh dst) (ry st))))"
    and nth: "\<forall>i<length calls.
              tile_call src dst flip
                (fst (concat (map (\<lambda>y. map (\<lambda>x. (x, y)) (origins (rw src) (rw dst) (rx st)))
                                  (origins (rh src) (rh dst) (ry st))) ! i))
                (snd (concat (map (\<lambda>y. map (\<lambda>x. (x, y)) (origins (rw src) (rw dst) (rx st)))
                                  (origins (rh src) (rh dst) (ry st))) ! i))
              = Some (calls ! i)"
    by blast
  define pairs where "pairs = concat (map (\<lambda>y. map (\<lambda>x. (x, y)) (origins (rw src) (rw dst) (rx st)))
                                 (origins (rh src) (rh dst) (ry st)))"
  note sx = ensure_leftmost_Some [OF start_tile_Some(5) [OF st] assms(3)]
  note sy = ensure_leftmost_Some [OF start_tile_Some(6) [OF st] assms(4)]
  have len': "length calls = length pairs" using len by (simp add: pairs_def)
  have tc: "tile_call src dst flip (fst (pairs ! i)) (snd (pairs ! i)) = Some (calls ! i)"
    if "i < length calls" for i
    using nth that by (simp add: pairs_def)
  have rel: "(\<Union>c \<in> set calls. cells (relative dst (call_dst c))) =
      {0 ..< 0 + rw dst} \<times> {0 ..< 0 + rh dst}"
    by (rule grid_partition(1) [OF assms(3,4) sx(1,2) sy(1,2) pairs_def len'])
      (simp add: cells_relative_tile_call [OF tc])
  have abs: "(\<Union>c \<in> set calls. cells (call_dst c)) =
      {rx dst ..< rx dst + rw dst} \<times> {ry dst ..< ry dst + rh dst}"
    by (rule grid_partition(1) [OF assms(3,4) sx(1,2) sy(1,2) pairs_def len'])
      (simp add: cells_tile_call [OF tc])
  have dis: "\<forall>i<length calls. \<forall>j<length calls. i \<noteq> j \<longrightarrow>
      cells (call_dst (calls ! i)) \<inter> cells (call_dst (calls ! j)) = {}"
    by (rule grid_partition(2) [OF assms(3,4) sx(1,2) sy(1,2) pairs_def len'])
      (simp add: cells_tile_call [OF tc])
  from log' rel abs dis show ?thesis by (auto simp: cells_def)
qed


subsection \<open>Runs without overflow\<close>

lemma clamp_tile_defined:
  assumes "small_rect src" "small_rect dst" "0 < rw src" "0 < rh src"
    and "- rw src < x" "x < rw dst" "- rh src < y" "y < rh dst"
  shows "clamp_tile src dst x y =
           Some (\<lparr>rx = rx src - min x 0, ry = ry src - min y 0,
                   rw = min (x + rw src) (rw dst) - max x 0,
                   rh = min (y + rh src) (rh dst) - max y 0\<rparr>,
                 \<lparr>rx = max x 0, ry = max y 0,
                   rw = min (x + rw src) (rw dst) - max x 0,
                   rh = min (y + rh src) (rh dst) - max y 0\<rparr>)"
  using assms
  by (auto simp: clamp_tile_def int_arith_defs small_rect_def small_def Let_def)


lemma make_absolute_defined:
  assumes "small_rect dst" and "0 \<le> rx td" "rx td \<le> 1073741823" "0 \<le> ry td" "ry td \<le> 1073741823"
  shows "make_absolute dst td \<noteq> None"
  using assms by (simp add: make_absolute_def int_arith_defs small_rect_def small_def)

lemma mirror_defined:
  assumes "small_rect src"
    and "rx src \<le> rx ts" "rx ts + rw ts \<le> rx src + rw src" "0 \<le> rw ts"
    and "ry src \<le> ry ts" "ry ts + rh ts \<le> ry src + rh src" "0 \<le> rh ts"
  shows "mirror src flip ts \<noteq> None"
proof -
  from assms have h: "c_sub (rw src) (rx ts) = Some (rw src - rx ts)"
    "c_sub (rw src - rx ts) (rw ts) = Some (rw src - rx ts - rw ts)"
    by (simp_all add: int_arith_defs small_rect_def small_def)
  from assms have v: "c_sub (rh src) (ry ts) = Some (rh src - ry ts)"
    "c_sub (rh src - ry ts) (rh ts) = Some (rh src - ry ts - rh ts)"
    by (simp_all add: int_arith_defs small_rect_def small_def)
  show ?thesis
    by (simp add: mirror_def h v)
qed

lemma tile_call_defined:
  assumes "small_rect src" "small_rect dst" "0 < rw src" "0 < rh src"
    and "- rw src < x" "x < rw dst" "- rh src < y" "y < rh dst"
    and "0 < rw dst" "0 < rh dst"
  shows "tile_call src dst flip x y \<noteq> None"
proof -
  define ts where "ts = \<lparr>rx = rx src - min x 0, ry = ry src - min y 0,
        rw = min (x + rw src) (rw dst) - max x 0, rh = min (y + rh src) (rh dst) - max y 0\<rparr>"
  define td where "td = \<lparr>rx = max x 0, ry = max y 0,
        rw = min (x + rw src) (rw dst) - max x 0, rh = min (y + rh src) (rh dst) - max y 0\<rparr>"
  have cl: "clamp_tile src dst x y = Some (ts, td)"
    unfolding ts_def td_def by (rule clamp_tile_defined [OF assms(1-8)])
  from assms(2,6,8) have "0 \<le> rx td" "rx td \<le> 1073741823" "0 \<le> ry td" "ry td \<le> 1073741823"
    by (simp_all add: td_def small_rect_def small_def)
  from make_absolute_defined [OF assms(2) this] obtain td' where
    ab: "make_absolute dst td = Some td'"
    by blast
  have "rx src \<le> rx ts" "ry src \<le> ry ts" by (simp_all add: ts_def)
  moreover from assms(3,5,6,9) have "rx ts + rw ts \<le> rx src + rw src" "0 \<le> rw ts"
    by (simp_all add: ts_def)
  moreover from assms(4,7,8,10) have "ry ts + rh ts \<le> ry src + rh src" "0 \<le> rh ts"
    by (simp_all add: ts_def)
  ultimately have "mirror src flip ts \<noteq> None"
    using assms(1) by (intro mirror_defined)
  then obtain ts' where mi: "mirror src flip ts = Some ts'" by blast
  show ?thesis
    by (simp add: tile_call_def cl ab mi)
qed

lemma plan_row_no_overflow:
  assumes "small_rect src" "small_rect dst" "0 < rw src" "0 < rh src"
    and "- rw src < x" "- rh src < y" "y < rh dst" "0 < rw dst" "0 < rh dst"
  shows "None \<notin> set (plan_row src dst flip y x)"
  using assms
proof (induction src dst flip y x rule: plan_row.induct)
  case (1 src dst flip y x)
  show ?case
  proof (cases "x < rw dst")
    case False
    then show ?thesis by (subst plan_row.simps) simp
  next
    case True
    with "1.prems" have c: "rw src \<noteq> 0 \<and> x < rw dst" by simp
    from "1.prems" True have a: "c_add x (rw src) = Some (x + rw src)"
      by (simp add: int_arith_defs small_rect_def small_def)
    from "1.prems" have "- rw src < x + rw src" by simp
    from "1.IH" [OF c a "1.prems"(1-4) this "1.prems"(6-9)]
    have rest: "None \<notin> set (plan_row src dst flip y (x + rw src))" .
    from tile_call_defined [OF "1.prems"(1-5) True "1.prems"(6-9)]
    have "tile_call src dst flip x y \<noteq> None" .
    with rest c a show ?thesis by (subst plan_row.simps) auto
  qed
qed

lemma plan_no_overflow:
  assumes "small_rect src" "small_rect dst" "0 < rw src" "0 < rh src"
    and "- rw src < sx" "- rh src < y" "0 < rw dst" "0 < rh dst"
  shows "None \<notin> set (plan src dst flip sx y)"
  using assms
proof (induction src dst flip sx y rule: plan.induct)
  case (1 src dst flip sx y)
  show ?case
  proof (cases "y < rh dst")
    case False
    then show ?thesis by (subst plan.simps) simp
  next
    case True
    with "1.prems" have c: "rh src \<noteq> 0 \<and> y < rh dst" by simp
    from "1.prems" True have a: "c_add y (rh src) = Some (y + rh src)"
      by (simp add: int_arith_defs small_rect_def small_def)
    from "1.prems" have "- rh src < y + rh src" by simp
    from "1.IH" [OF c a "1.prems"(1-5) this "1.prems"(7,8)]
    have rest: "None \<notin> set (plan src dst flip sx (y + rh src))" .
    from plan_row_no_overflow [OF "1.prems"(1-6) True "1.prems"(7,8)]
    have "None \<notin> set (plan_row src dst flip y sx)" .
    with rest c a show ?thesis by (subst plan.simps) auto
  qed
qed

lemma issue_all_succeeds:
  assumes "None \<notin> set cs" and "\<forall>l c. native_rc R l c = 0"
  shows "\<exists>log'. issue_all R cs log = (Returned, log')"
  using assms(1)
proof (induction cs arbitrary: log)
  case Nil
  then show ?case by simp
next
  case (Cons a cs)
  then obtain c where "a = Some c" by (cases a) auto
  with Cons assms(2) show ?case by simp
qed

lemma FillCopy_returns:
  assumes "resolve_src R srcrect = Inr src" and "resolve_dst R dstrect = Inr dst"
    and "0 < rw src" "0 < rh src"
    and "small_rect src" "small_rect dst" "small (px offset)" "small (py offset)"
    and "\<forall>l c. native_rc R l c = 0"
    and "0 < rw dst" "0 < rh dst"
  shows "\<exists>log'. FillCopy R srcrect dstrect offset flip log = Some (Returned, log')"
proof -
  from assms(3-8) have "\<exists>st. start_tile src offset = Some st \<and> rw st = rw src \<and> rh st = rh src \<and>
           - rw src < rx st \<and> rx st \<le> 0 \<and> - rh src < ry st \<and> ry st \<le> 0 \<and>
           rw src dvd (rx st - px offset) \<and> rh src dvd (ry st - py offset)"
    by (intro start_tile_defined) (simp_all add: small_rect_def small_def INT_MIN_def INT_MAX_def)
  then obtain st where st: "start_tile src offset = Some st" "- rw src < rx st" "- rh src < ry st"
    by blast
  from plan_no_overflow [OF assms(5,6,3,4) st(2,3) assms(10,11)]
  have "None \<notin> set (plan src dst flip (rx st) (ry st))" .
  from issue_all_succeeds [OF this assms(9)] obtain log' where
    "issue_all R (plan src dst flip (rx st) (ry st)) log = (Returned, log')"
    by blast
  with assms(1,2) st(1) show ?thesis by (simp add: FillCopy_plan)
qed


lemma issue_all_defined: "None \<notin> set cs \<Longrightarrow> fst (issue_all R cs log) \<noteq> Undefined"
proof (induction cs arbitrary: log)
  case Nil
  then show ?case by simp
next
  case (Cons a cs)
  then obtain c where "a = Some c" by (cases a) auto
  with Cons show ?case by simp
qed

lemma FillCopy_defined:
  assumes "resolve_src R srcrect = Inr src" and "resolve_dst R dstrect = Inr dst"
    and "0 < rw src" "0 < rh src" "0 < rw dst" "0 < rh dst"
    and "small_rect src" "small_rect dst" "small (px offset)" "small (py offset)"
    and "FillCopy R srcrect dstrect offset flip log = Some (out, log')"
  shows "out \<noteq> Undefined"
proof -
  from assms(3,4,7-10) have "\<exists>st. start_tile src offset = Some st \<and> rw st = rw src \<and> rh st = rh src \<and>
           - rw src < rx st \<and> rx st \<le> 0 \<and> - rh src < ry st \<and> ry st \<le> 0 \<and>
           rw src dvd (rx st - px offset) \<and> rh src dvd (ry st - py offset)"
    by (intro start_tile_defined) (simp_all add: small_rect_def small_def INT_MIN_def INT_MAX_def)
  then obtain st where st: "start_tile src offset = Some st" "- rw src < rx st" "- rh src < ry st"
    by blast
  from plan_no_overflow [OF assms(7,8,3,4) st(2,3) assms(5,6)]
  have "None \<notin> set (plan src dst flip (rx st) (ry st))" .
  from issue_all_defined [OF this, of R log]
  have "fst (issue_all R (plan src dst flip (rx st) (ry st)) log) \<noteq> Undefined" .
  moreover from assms(1,2,11) st(1)
  have "issue_all R (plan src dst flip (rx st) (ry st)) log = (out, log')"
    by (simp add: FillCopy_plan)
  ultimately show ?thesis by simp
qed


subsection \<open>Claim on the coverage\<close>

text \<open>
  C1, as the code has it. For a source rectangle (the tile) and a destination rectangle
  of positive width and height and any offset: whenever FillCopy returns, that is no
  copy fails and no \<^verbatim>\<open>int\<close> arithmetic of the run overflows, the destination
  rectangles of the copy calls it has issued are pairwise disjoint and their union is
  exactly the destination rectangle; in coordinates relative to the destination's
  origin, as they are after clipping, the union is \<open>[0, W) \<times> [0, H)\<close>. And FillCopy
  does return when every native copy succeeds and the coordinates, the extents and the
  offset are at most \<open>2^30 - 1\<close> in absolute value.
\<close>

theorem tiles_partition_destination:
  assumes "resolve_src R srcrect = Inr src" and "resolve_dst R dstrect = Inr dst"
    and "0 < rw src" "0 < rh src" "0 < rw dst" "0 < rh dst"
  shows "(\<forall>log'. FillCopy R srcrect dstrect offset flip log = Some (Returned, log') \<longrightarrow>
            (\<exists>calls. log' = log @ calls \<and>
               (\<Union>c \<in> set calls. cells (relative dst (call_dst c))) =
                 {0 ..< rw dst} \<times> {0 ..< rh dst} \<and>
               (\<Union>c \<in> set calls. cells (call_dst c)) = cells dst \<and>
               (\<forall>i<length calls. \<forall>j<length calls. i \<noteq> j \<longrightarrow>
                  cells (call_dst (calls ! i)) \<inter> cells (call_dst (calls ! j)) = {}))) \<and>
         (small_rect src \<and> small_rect dst \<and> small (px offset) \<and> small (py offset) \<and>
          (\<forall>l c. native_rc R l c = 0) \<longrightarrow>
            (\<exists>log'. FillCopy R srcrect dstrect offset flip log = Some (Returned, log')))"
proof (intro conjI allI impI)
  fix log'
  assume "FillCopy R srcrect dstrect offset flip log = Some (Returned, log')"
  from returned_tiles_partition [OF assms(1-4) this]
  show "\<exists>calls. log' = log @ calls \<and>
               (\<Union>c \<in> set calls. cells (relative dst (call_dst c))) =
                 {0 ..< rw dst} \<times> {0 ..< rh dst} \<and>
               (\<Union>c \<in> set calls. cells (call_dst c)) = cells dst \<and>
               (\<forall>i<length calls. \<forall>j<length calls. i \<noteq> j \<longrightarrow>
                  cells (call_dst (calls ! i)) \<inter> cells (call_dst (calls ! j)) = {})" .
next
  assume a: "small_rect src \<and> small_rect dst \<and> small (px offset) \<and> small (py offset) \<and>
          (\<forall>l c. native_rc R l c = 0)"
  show "\<exists>log'. FillCopy R srcrect dstrect offset flip log = Some (Returned, log')"
    by (rule FillCopy_returns [OF assms(1-4) _ _ _ _ _ assms(5,6)]) (use a in simp_all)
qed

theorem tiles_partition_destination_witness:
  "FillCopy all_ok None (Some \<lparr>rx = 5, ry = 5, rw = 3, rh = 3\<rparr>) \<lparr>px = - 2, py = 2\<rparr> 0 [] =
     Some (Returned,
       [SDL_RenderCopy \<lparr>rx = 2, ry = 2, rw = 2, rh = 2\<rparr> \<lparr>rx = 5, ry = 5, rw = 2, rh = 2\<rparr>,
        SDL_RenderCopy \<lparr>rx = 0, ry = 2, rw = 1, rh = 2\<rparr> \<lparr>rx = 7, ry = 5, rw = 1, rh = 2\<rparr>,
        SDL_RenderCopy \<lparr>rx = 2, ry = 0, rw = 2, rh = 1\<rparr> \<lparr>rx = 5, ry = 7, rw = 2, rh = 1\<rparr>,
        SDL_RenderCopy \<lparr>rx = 0, ry = 0, rw = 1, rh = 1\<rparr> \<lparr>rx = 7, ry = 7, rw = 1, rh = 1\<rparr>]) \<and>
   (\<exists>calls.
       [SDL_RenderCopy \<lparr>rx = 2, ry = 2, rw = 2, rh = 2\<rparr> \<lparr>rx = 5, ry = 5, rw = 2, rh = 2\<rparr>,
        SDL_RenderCopy \<lparr>rx = 0, ry = 2, rw = 1, rh = 2\<rparr> \<lparr>rx = 7, ry = 5, rw = 1, rh = 2\<rparr>,
        SDL_RenderCopy \<lparr>rx = 2, ry = 0, rw = 2, rh = 1\<rparr> \<lparr>rx = 5, ry = 7, rw = 2, rh = 1\<rparr>,
        SDL_RenderCopy \<lparr>rx = 0, ry = 0, rw = 1, rh = 1\<rparr> \<lparr>rx = 7, ry = 7, rw = 1, rh = 1\<rparr>]
        = [] @ calls \<and>
       (\<Union>c \<in> set calls. cells (relative \<lparr>rx = 5, ry = 5, rw = 3, rh = 3\<rparr> (call_dst c))) =
         {0 ..< 3} \<times> {0 ..< 3} \<and>
       (\<Union>c \<in> set calls. cells (call_dst c)) = cells \<lparr>rx = 5, ry = 5, rw = 3, rh = 3\<rparr> \<and>
       (\<forall>i<length calls. \<forall>j<length calls. i \<noteq> j \<longrightarrow>
          cells (call_dst (calls ! i)) \<inter> cells (call_dst (calls ! j)) = {})) \<and>
   small_rect tile4 \<and> small_rect \<lparr>rx = 5, ry = 5, rw = 3, rh = 3\<rparr> \<and> small (- 2) \<and> small 2 \<and>
   (\<exists>log'. FillCopy all_ok None (Some \<lparr>rx = 5, ry = 5, rw = 3, rh = 3\<rparr>) \<lparr>px = - 2, py = 2\<rparr> 0 []
       = Some (Returned, log'))"
proof -
  have r: "FillCopy all_ok None (Some \<lparr>rx = 5, ry = 5, rw = 3, rh = 3\<rparr>) \<lparr>px = - 2, py = 2\<rparr> 0 [] =
     Some (Returned,
       [SDL_RenderCopy \<lparr>rx = 2, ry = 2, rw = 2, rh = 2\<rparr> \<lparr>rx = 5, ry = 5, rw = 2, rh = 2\<rparr>,
        SDL_RenderCopy \<lparr>rx = 0, ry = 2, rw = 1, rh = 2\<rparr> \<lparr>rx = 7, ry = 5, rw = 1, rh = 2\<rparr>,
        SDL_RenderCopy \<lparr>rx = 2, ry = 0, rw = 2, rh = 1\<rparr> \<lparr>rx = 5, ry = 7, rw = 2, rh = 1\<rparr>,
        SDL_RenderCopy \<lparr>rx = 0, ry = 0, rw = 1, rh = 1\<rparr> \<lparr>rx = 7, ry = 7, rw = 1, rh = 1\<rparr>])"
    by (simp add: fillcopy_defs int_arith_defs col_loop.simps row_loop.simps all_ok_def)
  have s: "resolve_src all_ok None = Inr tile4"
    by (simp add: resolve_src_def all_ok_def tile4_def)
  have d: "resolve_dst all_ok (Some \<lparr>rx = 5, ry = 5, rw = 3, rh = 3\<rparr>) = Inr \<lparr>rx = 5, ry = 5, rw = 3, rh = 3\<rparr>"
    by (simp add: resolve_dst_def)
  have sm: "small_rect tile4" "small_rect \<lparr>rx = 5, ry = 5, rw = 3, rh = 3\<rparr>" "small (- 2)" "small 2"
    by (simp_all add: small_rect_def small_def tile4_def)
  have p: "0 < rw tile4" "0 < rh tile4" "0 < rw \<lparr>rx = 5, ry = 5, rw = 3, rh = 3\<rparr>"
    "0 < rh \<lparr>rx = 5, ry = 5, rw = 3, rh = 3\<rparr>"
    by (simp_all add: tile4_def)
  have ok: "\<forall>l c. native_rc all_ok l c = 0"
    by (simp add: all_ok_def)
  from tiles_partition_destination [OF s d p, of "\<lparr>px = - 2, py = 2\<rparr>" 0 "[]"] r sm ok
  show ?thesis by simp
qed

text \<open>
  C1 as stated, for all sizes and offsets, fails where the arithmetic overflows: with a
  tile and a destination of width \<^verbatim>\<open>2147483647\<close> and offset \<open>(-1, 0)\<close> the first tile
  covers the columns \<open>[0, 2147483646)\<close>, and for the second tile
  \<^verbatim>\<open>tile_dst.x + tile_dst.w\<close> overflows: the behaviour is undefined from there on, and
  the rectangles emitted up to that point leave the last column out. (Where the overflow
  wraps around instead, the loop carries on and emits rectangles that overlap the first.)
\<close>

theorem tiles_partition_overflow:
  "FillCopy all_ok (Some \<lparr>rx = 0, ry = 0, rw = 2147483647, rh = 1\<rparr>)
     (Some \<lparr>rx = 0, ry = 0, rw = 2147483647, rh = 1\<rparr>) \<lparr>px = - 1, py = 0\<rparr> 0 []
     = Some (Undefined, [SDL_RenderCopy \<lparr>rx = 1, ry = 0, rw = 2147483646, rh = 1\<rparr>
                                        \<lparr>rx = 0, ry = 0, rw = 2147483646, rh = 1\<rparr>]) \<and>
   (2147483646, 0) \<in> cells \<lparr>rx = 0, ry = 0, rw = 2147483647, rh = 1\<rparr> \<and>
   (2147483646, 0) \<notin> cells \<lparr>rx = 0, ry = 0, rw = 2147483646, rh = 1\<rparr>"
  by (simp add: fillcopy_defs int_arith_defs col_loop.simps row_loop.simps all_ok_def cells_def)


subsection \<open>Claim on the emitted destinations\<close>

text \<open>
  C10, as the code has it. With a source and a destination rectangle of positive width
  and height, FillCopy ends on every input and every copy call it has issued before any
  overflow of its \<^verbatim>\<open>int\<close> arithmetic has a destination rectangle of strictly positive
  width and height; and no arithmetic overflows, so that the run returns or throws from
  a copy, when the coordinates, the extents and the offset are at most \<open>2^30 - 1\<close> in
  absolute value.
\<close>

theorem emitted_dst_positive:
  assumes "resolve_src R srcrect = Inr src" and "resolve_dst R dstrect = Inr dst"
    and "0 < rw src" "0 < rh src" "0 < rw dst" "0 < rh dst"
  shows "\<exists>out calls. FillCopy R srcrect dstrect offset flip log = Some (out, log @ calls) \<and>
           (\<forall>c \<in> set calls. 0 < rw (call_dst c) \<and> 0 < rh (call_dst c)) \<and>
           (small_rect src \<and> small_rect dst \<and> small (px offset) \<and> small (py offset) \<longrightarrow>
              out \<noteq> Undefined)"
proof -
  from FillCopy_total [of R srcrect dstrect offset flip log] obtain r where
    "FillCopy R srcrect dstrect offset flip log = Some r"
    by blast
  then obtain out log' where
    run: "FillCopy R srcrect dstrect offset flip log = Some (out, log')"
    by (cases r) simp
  from FillCopy_log [OF run] obtain calls where log': "log' = log @ calls"
    and each: "\<forall>c \<in> set calls. \<exists>src dst st x y.
              resolve_src R srcrect = Inr src \<and> resolve_dst R dstrect = Inr dst \<and>
              start_tile src offset = Some st \<and> tile_call src dst flip x y = Some c \<and>
              x < rw dst \<and> y < rh dst \<and>
              (0 < rw src \<longrightarrow> rx st \<le> x) \<and> (0 < rh src \<longrightarrow> ry st \<le> y)"
    by blast
  have pos: "0 < rw (call_dst c) \<and> 0 < rh (call_dst c)" if "c \<in> set calls" for c
  proof -
    from each that assms(1,2) obtain st x y where st: "start_tile src offset = Some st"
      and tc: "tile_call src dst flip x y = Some c"
      and b: "x < rw dst" "y < rh dst" "0 < rw src \<longrightarrow> rx st \<le> x" "0 < rh src \<longrightarrow> ry st \<le> y"
      by fastforce
    from ensure_leftmost_Some(1) [OF start_tile_Some(5) [OF st] assms(3)] b(3) assms(3)
    have x: "- rw src < x" by simp
    from ensure_leftmost_Some(1) [OF start_tile_Some(6) [OF st] assms(4)] b(4) assms(4)
    have y: "- rh src < y" by simp
    from tile_call_positive [OF tc x b(1) assms(3,5) y b(2) assms(4,6)] show ?thesis .
  qed
  have def: "small_rect src \<and> small_rect dst \<and> small (px offset) \<and> small (py offset) \<longrightarrow>
              out \<noteq> Undefined"
  proof
    assume "small_rect src \<and> small_rect dst \<and> small (px offset) \<and> small (py offset)"
    then have sm: "small_rect src" "small_rect dst" "small (px offset)" "small (py offset)"
      by simp_all
    from FillCopy_defined [OF assms sm run] show "out \<noteq> Undefined" .
  qed
  from run log' have "FillCopy R srcrect dstrect offset flip log = Some (out, log @ calls)" by simp
  moreover from pos have "\<forall>c \<in> set calls. 0 < rw (call_dst c) \<and> 0 < rh (call_dst c)" by blast
  ultimately show ?thesis using def by (intro exI conjI)
qed

theorem emitted_dst_positive_witness:
  "FillCopy all_ok None (Some \<lparr>rx = 5, ry = 5, rw = 3, rh = 3\<rparr>) \<lparr>px = - 2, py = 2\<rparr> 0 [] =
     Some (Returned,
       [SDL_RenderCopy \<lparr>rx = 2, ry = 2, rw = 2, rh = 2\<rparr> \<lparr>rx = 5, ry = 5, rw = 2, rh = 2\<rparr>,
        SDL_RenderCopy \<lparr>rx = 0, ry = 2, rw = 1, rh = 2\<rparr> \<lparr>rx = 7, ry = 5, rw = 1, rh = 2\<rparr>,
        SDL_RenderCopy \<lparr>rx = 2, ry = 0, rw = 2, rh = 1\<rparr> \<lparr>rx = 5, ry = 7, rw = 2, rh = 1\<rparr>,
        SDL_RenderCopy \<lparr>rx = 0, ry = 0, rw = 1, rh = 1\<rparr> \<lparr>rx = 7, ry = 7, rw = 1, rh = 1\<rparr>]) \<and>
   small_rect tile4 \<and> small_rect \<lparr>rx = 5, ry = 5, rw = 3, rh = 3\<rparr> \<and> small (- 2) \<and> small 2 \<and>
   (\<exists>out calls.
       FillCopy all_ok None (Some \<lparr>rx = 5, ry = 5, rw = 3, rh = 3\<rparr>) \<lparr>px = - 2, py = 2\<rparr> 0 [] =
         Some (out, [] @ calls) \<and>
       (\<forall>c \<in> set calls. 0 < rw (call_dst c) \<and> 0 < rh (call_dst c)) \<and>
       out \<noteq> Undefined)"
proof -
  have r: "FillCopy all_ok None (Some \<lparr>rx = 5, ry = 5, rw = 3, rh = 3\<rparr>) \<lparr>px = - 2, py = 2\<rparr> 0 [] =
     Some (Returned,
       [SDL_RenderCopy \<lparr>rx = 2, ry = 2, rw = 2, rh = 2\<rparr> \<lparr>rx = 5, ry = 5, rw = 2, rh = 2\<rparr>,
        SDL_RenderCopy \<lparr>rx = 0, ry = 2, rw = 1, rh = 2\<rparr> \<lparr>rx = 7, ry = 5, rw = 1, rh = 2\<rparr>,
        SDL_RenderCopy \<lparr>rx = 2, ry = 0, rw = 2, rh = 1\<rparr> \<lparr>rx = 5, ry = 7, rw = 2, rh = 1\<rparr>,
        SDL_RenderCopy \<lparr>rx = 0, ry = 0, rw = 1, rh = 1\<rparr> \<lparr>rx = 7, ry = 7, rw = 1, rh = 1\<rparr>])"
    by (simp add: fillcopy_defs int_arith_defs col_loop.simps row_loop.simps all_ok_def)
  have s: "resolve_src all_ok None = Inr tile4"
    by (simp add: resolve_src_def all_ok_def tile4_def)
  have d: "resolve_dst all_ok (Some \<lparr>rx = 5, ry = 5, rw = 3, rh = 3\<rparr>) = Inr \<lparr>rx = 5, ry = 5, rw = 3, rh = 3\<rparr>"
    by (simp add: resolve_dst_def)
  have sm: "small_rect tile4" "small_rect \<lparr>rx = 5, ry = 5, rw = 3, rh = 3\<rparr>" "small (- 2)" "small 2"
    by (simp_all add: small_rect_def small_def tile4_def)
  have p: "0 < rw tile4" "0 < rh tile4" "0 < rw \<lparr>rx = 5, ry = 5, rw = 3, rh = 3\<rparr>"
    "0 < rh \<lparr>rx = 5, ry = 5, rw = 3, rh = 3\<rparr>"
    by (simp_all add: tile4_def)
  from emitted_dst_positive [OF s d p, of "\<lparr>px = - 2, py = 2\<rparr>" 0 "[]"] sm
  have "\<exists>out calls.
       FillCopy all_ok None (Some \<lparr>rx = 5, ry = 5, rw = 3, rh = 3\<rparr>) \<lparr>px = - 2, py = 2\<rparr> 0 [] =
         Some (out, [] @ calls) \<and>
       (\<forall>c \<in> set calls. 0 < rw (call_dst c) \<and> 0 < rh (call_dst c)) \<and>
       out \<noteq> Undefined"
    by simp
  with r sm show ?thesis by (intro conjI)
qed

text \<open>
  C10 as stated, for all positive sizes and all offsets, fails where the arithmetic
  overflows: with a tile of width \<^verbatim>\<open>2147483645\<close>, a destination of width \<open>1\<close> and offset
  \<open>(5, 0)\<close>, all inside the preconditions, \<^verbatim>\<open>start_tile.x + start_tile.w\<close> overflows in
  the normalisation. The behaviour is undefined from there on, and nothing bounds the
  rectangles passed to the copy. (Where the overflow wraps around, \<^verbatim>\<open>start_tile.x\<close>
  becomes \<^verbatim>\<open>-2147483646\<close> and the first copy is requested with \<^verbatim>\<open>tile_dst.w = -1\<close>.)
\<close>

theorem emitted_dst_overflow:
  "0 < rw \<lparr>rx = 0, ry = 0, rw = 2147483645, rh = 1\<rparr> \<and>
   0 < rh \<lparr>rx = 0, ry = 0, rw = 2147483645, rh = 1\<rparr> \<and>
   0 < rw \<lparr>rx = 0, ry = 0, rw = 1, rh = 1\<rparr> \<and> 0 < rh \<lparr>rx = 0, ry = 0, rw = 1, rh = 1\<rparr> \<and>
   c_add 5 2147483645 = None \<and>
   start_tile \<lparr>rx = 0, ry = 0, rw = 2147483645, rh = 1\<rparr> \<lparr>px = 5, py = 0\<rparr> = None \<and>
   FillCopy all_ok (Some \<lparr>rx = 0, ry = 0, rw = 2147483645, rh = 1\<rparr>)
     (Some \<lparr>rx = 0, ry = 0, rw = 1, rh = 1\<rparr>) \<lparr>px = 5, py = 0\<rparr> 0 [] = Some (Undefined, [])"
  by (simp add: fillcopy_defs int_arith_defs all_ok_def)

end
